theory Spec2Isabelle
  imports Main "HOL-Library.AList"
begin

section \<open>JavaScript values\<close>

text \<open>
  The values that flow through the functions below. Numbers occur only as opaque
  payloads (initial values of controls), so they are integers here. An object is the
  dictionary of its own properties; a function is known by its identity only. Property
  order is not part of an object: where the source enumerates an object
  (\<^verbatim>\<open>Object.entries\<close>), the enumeration is modelled as a list of its own. An
  assignment under the name \<^verbatim>\<open>__proto__\<close> goes to the setter every ordinary object
  inherits and creates no property.
\<close>

datatype jsval =
    JUndefined
  | JNull
  | JBool bool
  | JNum int
  | JStr string
  | JArr "jsval list"
  | JObj "string \<Rightarrow> jsval option"
  | JFun nat

type_synonym js_object = "string \<Rightarrow> jsval option"

text \<open>
  Reading a property of a value that is neither \<^verbatim>\<open>null\<close> nor
  \<^verbatim>\<open>undefined\<close>: an own property of an object, \<^verbatim>\<open>undefined\<close> otherwise (a
  primitive, an array or a function carries none of the property names used here).
\<close>

fun get_prop :: "jsval \<Rightarrow> string \<Rightarrow> jsval" where
  "get_prop (JObj m) k = (case m k of Some v \<Rightarrow> v | None \<Rightarrow> JUndefined)"
| "get_prop _ k = JUndefined"

fun nullish :: "jsval \<Rightarrow> bool" where
  "nullish JUndefined = True"
| "nullish JNull = True"
| "nullish _ = False"

text \<open>What the engine raises when a property of \<^verbatim>\<open>null\<close> or \<^verbatim>\<open>undefined\<close> is read.\<close>

datatype js_error = TypeError

section \<open>Headless \<^verbatim>\<open>useControls\<close>: rebuilding the argument list\<close>

text \<open>
  \<^verbatim>\<open>headless/useControls.utils.ts\<close>. The parameter object of
  \<^verbatim>\<open>reconstructArgsWithHeadless\<close> with the types the source declares:
  \<^verbatim>\<open>folderName: string | undefined\<close>, \<^verbatim>\<open>hookSettings?: HookSettings\<close>, every other
  slot a union of objects, arrays and \<^verbatim>\<open>undefined\<close>.
\<close>

record params =
  folderName :: "string option"
  schemaOrFolderName :: jsval
  settingsOrDepsOrSchema :: jsval
  depsOrSettingsOrFolderSettings :: jsval
  depsOrSettings :: jsval
  depsOrUndefined :: jsval
  hookSettings :: "js_object option"

text \<open>
  \<^verbatim>\<open>typeof value === 'object' && !Array.isArray(value) && value !== null\<close>:
  \<^verbatim>\<open>typeof\<close> is \<^verbatim>\<open>'object'\<close> for objects, arrays and \<^verbatim>\<open>null\<close> only.
\<close>

fun isHookSettings :: "jsval \<Rightarrow> bool" where
  "isHookSettings (JObj m) = True"
| "isHookSettings _ = False"

text \<open>\<^verbatim>\<open>{ ...hookSettings, headless: true }\<close>; spreading \<^verbatim>\<open>undefined\<close> adds nothing.\<close>

definition createHeadlessSettings :: "js_object option \<Rightarrow> js_object" where
  "createHeadlessSettings hs =
     (case hs of None \<Rightarrow> Map.empty | Some m \<Rightarrow> m)(''headless'' \<mapsto> JBool True)"

text \<open>\<^verbatim>\<open>if (folderName)\<close>: \<^verbatim>\<open>undefined\<close> and the empty string are falsy.\<close>

fun truthy_name :: "string option \<Rightarrow> bool" where
  "truthy_name None = False"
| "truthy_name (Some s) = (s \<noteq> [])"

definition reconstructArgsWithHeadless :: "params \<Rightarrow> jsval list" where
  "reconstructArgsWithHeadless p =
     (let headlessSettings = createHeadlessSettings (hookSettings p) in
      if truthy_name (folderName p) then
        (let folderSettingsArg = depsOrSettingsOrFolderSettings p in
         if isHookSettings (depsOrSettings p) then
           [schemaOrFolderName p, settingsOrDepsOrSchema p, folderSettingsArg,
            JObj headlessSettings, depsOrUndefined p]
         else
           [schemaOrFolderName p, settingsOrDepsOrSchema p, folderSettingsArg,
            JObj headlessSettings, depsOrSettings p])
      else
        (if isHookSettings (settingsOrDepsOrSchema p) then
           [schemaOrFolderName p, JObj headlessSettings, depsOrSettingsOrFolderSettings p]
         else
           [schemaOrFolderName p, JObj headlessSettings, settingsOrDepsOrSchema p]))"

section \<open>\<^verbatim>\<open>useInputSetters\<close>: committing a value\<close>

text \<open>
  \<^verbatim>\<open>onUpdate\<close> calls the \<^verbatim>\<open>setValue\<close> it was given. That callback works on
  the world outside the hook (the store) and either returns or throws a value; what it
  did to the world before throwing stays done. The hook's own state is the display
  value. \<^verbatim>\<open>format\<close> comes from the plugin registry and is a parameter here, as is the
  input type and the settings of the latest render (\<^verbatim>\<open>settingsRef.current\<close>).
\<close>

datatype completion = Returned | Thrown jsval | Raised js_error

record ('w, 'd) hook_state =
  world :: 'w
  displayValue :: 'd

text \<open>
  \<^verbatim>\<open>const { type, previousValue } = error\<close> raises a \<^verbatim>\<open>TypeError\<close> when the thrown
  value is \<^verbatim>\<open>null\<close> or \<^verbatim>\<open>undefined\<close>; on any other value it reads the two
  properties. A failure raised by the engine inside \<^verbatim>\<open>setValue\<close> is an error object
  without a \<^verbatim>\<open>type\<close> property and takes the re-throwing branch.
\<close>

definition onUpdate ::
  "(string \<Rightarrow> jsval \<Rightarrow> 's \<Rightarrow> 'd) \<Rightarrow> string \<Rightarrow> 's \<Rightarrow> (jsval \<Rightarrow> 'w \<Rightarrow> completion \<times> 'w) \<Rightarrow>
   jsval \<Rightarrow> ('w, 'd) hook_state \<Rightarrow> completion \<times> ('w, 'd) hook_state" where
  "onUpdate format ty settings setValue updatedValue st =
     (case setValue updatedValue (world st) of
        (Returned, w) \<Rightarrow> (Returned, st\<lparr>world := w\<rparr>)
      | (Raised e, w) \<Rightarrow> (Raised e, st\<lparr>world := w\<rparr>)
      | (Thrown error, w) \<Rightarrow>
          if nullish error then (Raised TypeError, st\<lparr>world := w\<rparr>)
          else
            (let type = get_prop error ''type'';
                 previousValue = get_prop error ''previousValue''
             in if type \<noteq> JStr ''LEVA_ERROR'' then (Thrown error, st\<lparr>world := w\<rparr>)
                else (Returned, st\<lparr>world := w, displayValue := format ty previousValue settings\<rparr>)))"

section \<open>Flattened value snapshots\<close>

text \<open>
  \<^verbatim>\<open>utils/data.ts\<close> and the hooks \<^verbatim>\<open>useValuesForPath\<close>, \<^verbatim>\<open>useValues\<close>. The
  readers see a stored item through the fields its type declares: \<^verbatim>\<open>key: string\<close>, the
  flag \<^verbatim>\<open>disabled\<close> (absent counts as false) and \<^verbatim>\<open>value\<close>, which a special entry
  (button, monitor) does not have. The store's data is the dictionary from full paths to
  items.
\<close>

record data_item =
  item_key :: string
  item_value :: "jsval option"
  item_disabled :: bool

type_synonym Data = "string \<Rightarrow> data_item option"

text \<open>
  \<^verbatim>\<open>Object.entries\<close> lists the own properties of an object: those whose name is an
  array index (a canonical decimal numeral below \<open>2\<^sup>3\<^sup>2 - 1\<close>) in ascending numeric
  order, then the others in the order they were created.
\<close>

definition index_value :: "string \<Rightarrow> nat" where
  "index_value s = foldl (\<lambda>n c. 10 * n + (of_char c - 48)) 0 s"

definition is_array_index :: "string \<Rightarrow> bool" where
  "is_array_index s =
     (s \<noteq> [] \<and> list_all (\<lambda>c. c \<in> set ''0123456789'') s \<and>
      (s = ''0'' \<or> hd s \<noteq> CHR ''0'') \<and> index_value s < 4294967295)"

definition object_entries :: "(string \<times> 'a) list \<Rightarrow> (string \<times> 'a) list" where
  "object_entries kvs =
     sort_key (\<lambda>kv. index_value (fst kv)) (filter (\<lambda>kv. is_array_index (fst kv)) kvs) @
     filter (\<lambda>kv. \<not> is_array_index (fst kv)) kvs"

text \<open>
  Modelled from the spec: \<^verbatim>\<open>pick\<close> of the utilities, which is not among the sources.
  It copies, in the order of the requested keys, each own property of the data that a
  key names into a new object (kept here with its creation order, since
  \<^verbatim>\<open>getValuesForPaths\<close> enumerates the result).
\<close>

definition pick :: "Data \<Rightarrow> string list \<Rightarrow> (string \<times> data_item) list" where
  "pick data keys =
     foldl (\<lambda>obj k. case data k of Some e \<Rightarrow> AList.update k e obj | None \<Rightarrow> obj) [] keys"

text \<open>
  The reducer of \<^verbatim>\<open>getValuesForPaths\<close> sets
  \<^verbatim>\<open>acc[key] = disabled ? undefined : value\<close>, where destructuring an item without a
  \<^verbatim>\<open>value\<close> property yields \<^verbatim>\<open>undefined\<close>; \<^verbatim>\<open>reduce\<close> is a left fold. Under
  the key \<^verbatim>\<open>__proto__\<close> the assignment creates no property of the result.
\<close>

definition shown_value :: "data_item \<Rightarrow> jsval" where
  "shown_value e =
     (if item_disabled e then JUndefined
      else (case item_value e of Some v \<Rightarrow> v | None \<Rightarrow> JUndefined))"

definition reducer :: "js_object \<Rightarrow> string \<times> data_item \<Rightarrow> js_object" where
  "reducer acc entry =
     (if item_key (snd entry) = ''__proto__'' then acc
      else acc(item_key (snd entry) \<mapsto> shown_value (snd entry)))"

definition getValuesForPaths :: "Data \<Rightarrow> string list \<Rightarrow> js_object" where
  "getValuesForPaths data paths = foldl reducer Map.empty (object_entries (pick data paths))"

text \<open>The selector of \<^verbatim>\<open>useValuesForPath\<close>: \<^verbatim>\<open>{ ...initialData, ...s.data }\<close> first.\<close>

definition useValuesForPath :: "Data \<Rightarrow> string list \<Rightarrow> Data \<Rightarrow> js_object" where
  "useValuesForPath sdata paths initialData = getValuesForPaths (initialData ++ sdata) paths"

text \<open>
  The selector of \<^verbatim>\<open>useValues\<close>:
  \<^verbatim>\<open>if (data[path] && 'value' in data[path]) Object.assign(acc, { [path]: data[path].value })\<close>.
  \<^verbatim>\<open>Object.assign\<close> assigns, so under the path \<^verbatim>\<open>__proto__\<close> it creates no property
  of the result.
\<close>

definition useValues :: "Data \<Rightarrow> string list \<Rightarrow> js_object" where
  "useValues data paths =
     foldl (\<lambda>acc path.
            case data path of
              None \<Rightarrow> acc
            | Some e \<Rightarrow>
                (case item_value e of
                   None \<Rightarrow> acc
                 | Some v \<Rightarrow> if path = ''__proto__'' then acc else acc(path \<mapsto> v)))
       Map.empty paths"

text \<open>
  Modelled from the spec: the snapshot accessor \<^verbatim>\<open>get\<close> that a registration returns,
  which lives in the store and is not among the sources. It "returns current value or
  throws unknown path if the path was never registered by any caller".
\<close>

datatype lookup_error = Unknown_path

definition get_accessor :: "Data \<Rightarrow> string \<Rightarrow> lookup_error + jsval" where
  "get_accessor data p =
     (case data p of
        None \<Rightarrow> Inl Unknown_path
      | Some e \<Rightarrow> Inr (case item_value e of Some v \<Rightarrow> v | None \<Rightarrow> JUndefined))"

section \<open>The path resolver\<close>

text \<open>
  \<^verbatim>\<open>getDataFromSchema\<close> of \<^verbatim>\<open>utils/data.ts\<close>. A schema is given by what
  \<^verbatim>\<open>Object.entries\<close> lists of it. A raw input is a folder
  (\<^verbatim>\<open>rawInput.type === SpecialInputs.FOLDER\<close>, with its \<^verbatim>\<open>schema\<close> and
  \<^verbatim>\<open>settings\<close>), \<^verbatim>\<open>null\<close> or \<^verbatim>\<open>undefined\<close> (reading \<^verbatim>\<open>rawInput.type\<close> raises),
  or any other value, which is handed to \<^verbatim>\<open>normalizeInput\<close> as it is.
\<close>

text \<open>
  \<^verbatim>\<open>mappedPaths\<close> and \<^verbatim>\<open>folders\<close> are ordinary objects used as dictionaries. The
  operator \<^verbatim>\<open>in\<close> answers for their own properties and for the names every ordinary
  object inherits; the value found under an inherited name has no \<^verbatim>\<open>path\<close>.
\<close>

definition object_prototype_keys :: "string list" where
  "object_prototype_keys =
     [''constructor'', ''__defineGetter__'', ''__defineSetter__'', ''hasOwnProperty'',
      ''__lookupGetter__'', ''__lookupSetter__'', ''isPrototypeOf'', ''propertyIsEnumerable'',
      ''toString'', ''valueOf'', ''__proto__'', ''toLocaleString'']"

definition inherited :: "string \<Rightarrow> bool" where
  "inherited k = (k \<in> set object_prototype_keys)"

datatype 'r raw_input =
    Nullish
  | Folder "(string \<times> 'r raw_input) list" jsval
  | Input 'r

text \<open>What \<^verbatim>\<open>normalizeInput\<close> returns when it recognises the input.\<close>

record normalized =
  n_type :: jsval
  n_options :: js_object
  n_input :: js_object

text \<open>An entry of \<^verbatim>\<open>mappedPaths\<close>; a callback the options lack is \<^verbatim>\<open>undefined\<close>.\<close>

record mapped_path =
  path :: string
  onChange :: jsval
  transient :: jsval
  onEditStart :: jsval
  onEditEnd :: jsval

datatype 'r warning =
    EMPTY_KEY
  | DUPLICATE_KEYS string string jsval
  | UNKNOWN_INPUT string 'r

text \<open>
  A call returns its data or raises; either way the caller's \<^verbatim>\<open>mappedPaths\<close> and
  \<^verbatim>\<open>folders\<close> objects have been written to, and the warnings have been printed.
\<close>

record 'r outcome =
  returned :: "js_error + (string \<Rightarrow> js_object option)"
  mappedPaths :: "string \<Rightarrow> mapped_path option"
  folders :: "string \<Rightarrow> jsval option"
  warned :: "'r warning list"

definition side_effect_keys :: "string list" where
  "side_effect_keys = [''onChange'', ''transient'', ''onEditStart'', ''onEditEnd'']"

text \<open>
  \<^verbatim>\<open>const { onChange, transient, onEditStart, onEditEnd, ..._options } = options\<close> and
  \<^verbatim>\<open>{ type, ..._options, ...input, fromPanel: true }\<close>: a later property overrides
  an earlier one of the same name.
\<close>

definition rest_options :: "js_object \<Rightarrow> js_object" where
  "rest_options options = (\<lambda>k. if k \<in> set side_effect_keys then None else options k)"

definition data_entry :: "normalized \<Rightarrow> js_object" where
  "data_entry n =
     ([''type'' \<mapsto> n_type n] ++ rest_options (n_options n) ++ n_input n)(''fromPanel'' \<mapsto> JBool True)"

definition option_or_undefined :: "js_object \<Rightarrow> string \<Rightarrow> jsval" where
  "option_or_undefined options k = (case options k of Some v \<Rightarrow> v | None \<Rightarrow> JUndefined)"

definition mapped_entry :: "string \<Rightarrow> normalized \<Rightarrow> mapped_path" where
  "mapped_entry newPath n =
     \<lparr>path = newPath,
      onChange = option_or_undefined (n_options n) ''onChange'',
      transient = option_or_undefined (n_options n) ''transient'',
      onEditStart = option_or_undefined (n_options n) ''onEditStart'',
      onEditEnd = option_or_undefined (n_options n) ''onEditEnd''\<rparr>"

text \<open>
  The function, with \<^verbatim>\<open>normalizeInput\<close> and \<^verbatim>\<open>join\<close> (both of the utilities, not
  among the sources) as parameters. \<open>forEach\<close> is the loop over the entries, with the
  local \<^verbatim>\<open>data\<close> object it fills; \<open>callback\<close> is its body for one entry. The local
  \<^verbatim>\<open>data\<close> is written under full paths only; with dotted paths the one full path that
  is an inherited setter's name, \<^verbatim>\<open>__proto__\<close>, belongs to the key \<^verbatim>\<open>__proto__\<close> at the
  root, which the \<^verbatim>\<open>in\<close> test sends to the duplicate branch before anything is
  written.
\<close>

fun getDataFromSchema ::
    "('r \<Rightarrow> string \<Rightarrow> string \<Rightarrow> (string \<Rightarrow> js_object option) \<Rightarrow> normalized option) \<Rightarrow>
     (string \<Rightarrow> string \<Rightarrow> string) \<Rightarrow> (string \<times> 'r raw_input) list \<Rightarrow> string \<Rightarrow>
     (string \<Rightarrow> mapped_path option) \<Rightarrow> (string \<Rightarrow> jsval option) \<Rightarrow> 'r outcome"
  and forEach ::
    "('r \<Rightarrow> string \<Rightarrow> string \<Rightarrow> (string \<Rightarrow> js_object option) \<Rightarrow> normalized option) \<Rightarrow>
     (string \<Rightarrow> string \<Rightarrow> string) \<Rightarrow> (string \<times> 'r raw_input) list \<Rightarrow> string \<Rightarrow>
     (string \<Rightarrow> js_object option) \<Rightarrow>
     (string \<Rightarrow> mapped_path option) \<Rightarrow> (string \<Rightarrow> jsval option) \<Rightarrow> 'r outcome"
  and callback ::
    "('r \<Rightarrow> string \<Rightarrow> string \<Rightarrow> (string \<Rightarrow> js_object option) \<Rightarrow> normalized option) \<Rightarrow>
     (string \<Rightarrow> string \<Rightarrow> string) \<Rightarrow> string \<Rightarrow> 'r raw_input \<Rightarrow> string \<Rightarrow>
     (string \<Rightarrow> js_object option) \<Rightarrow>
     (string \<Rightarrow> mapped_path option) \<Rightarrow> (string \<Rightarrow> jsval option) \<Rightarrow> 'r outcome"
where
  "getDataFromSchema normalizeInput join schema rootPath mp fs =
     forEach normalizeInput join schema rootPath Map.empty mp fs"
| "forEach normalizeInput join [] rootPath data mp fs =
     \<lparr>returned = Inr data, mappedPaths = mp, folders = fs, warned = []\<rparr>"
| "forEach normalizeInput join (e # es) rootPath data mp fs =
     (let o1 = callback normalizeInput join (fst e) (snd e) rootPath data mp fs in
      case returned o1 of
        Inl err \<Rightarrow> o1
      | Inr data1 \<Rightarrow>
          (let o2 = forEach normalizeInput join es rootPath data1 (mappedPaths o1) (folders o1)
           in o2\<lparr>warned := warned o1 @ warned o2\<rparr>))"
| "callback normalizeInput join key rawInput rootPath data mp fs =
     (if key = [] then
        \<lparr>returned = Inr data, mappedPaths = mp, folders = fs, warned = [EMPTY_KEY]\<rparr>
      else
        (let newPath = join rootPath key in
         case rawInput of
           Nullish \<Rightarrow> \<lparr>returned = Inl TypeError, mappedPaths = mp, folders = fs, warned = []\<rparr>
         | Folder schema settings \<Rightarrow>
             (let o1 = getDataFromSchema normalizeInput join schema newPath mp fs in
              case returned o1 of
                Inl err \<Rightarrow> o1
              | Inr newData \<Rightarrow>
                  o1\<lparr>returned := Inr (data ++ newData),
                     folders := (if newPath \<in> dom (folders o1) \<or> inherited newPath
                                 then folders o1
                                 else (folders o1)(newPath \<mapsto> settings))\<rparr>)
         | Input r \<Rightarrow>
             (case mp key of
                Some first \<Rightarrow>
                  \<lparr>returned = Inr data, mappedPaths = mp, folders = fs,
                   warned = [DUPLICATE_KEYS key newPath (JStr (path first))]\<rparr>
              | None \<Rightarrow>
                  if inherited key then
                    \<lparr>returned = Inr data, mappedPaths = mp, folders = fs,
                     warned = [DUPLICATE_KEYS key newPath JUndefined]\<rparr>
                  else
                    (case normalizeInput r key newPath data of
                       Some n \<Rightarrow>
                         \<lparr>returned = Inr (data(newPath \<mapsto> data_entry n)),
                          mappedPaths = mp(key \<mapsto> mapped_entry newPath n),
                          folders = fs, warned = []\<rparr>
                     | None \<Rightarrow>
                         \<lparr>returned = Inr data, mappedPaths = mp, folders = fs,
                          warned = [UNKNOWN_INPUT newPath r]\<rparr>))))"

section \<open>The ownership coordinator\<close>

text \<open>
  The store and its reference counting (\<^verbatim>\<open>addData\<close>, \<^verbatim>\<open>removeData\<close> and the
  registration effect of the main hook) are not among the sources. This section is a
  model of sections 3 and 4.5 of the specification, in its words.
\<close>

text \<open>
  Modelled from the spec: the stored entry, of which the coordinator reads the type, keeps
  the committed value and counts the owners (\<^verbatim>\<open>ownerRefCount\<close>).
\<close>

record entry =
  entry_type :: string
  entry_value :: jsval
  ownerRefCount :: nat

text \<open>
  Modelled from the spec: what one logical registration resolves its schema to, the
  inputs by path (with type and initial value) and the folders by path (with settings).
\<close>

record registration =
  reg_inputs :: "(string \<times> string \<times> jsval) list"
  reg_folders :: "(string \<times> jsval) list"

definition reg_paths :: "registration \<Rightarrow> string list" where
  "reg_paths r = map fst (reg_inputs r)"

text \<open>
  Modelled from the spec: the store, the table of entries by path, the folder entries by
  path, and the conflict diagnostics reported so far.
\<close>

record store =
  entries :: "(string \<times> entry) list"
  folder_entries :: "string \<Rightarrow> jsval option"
  conflicts :: "string list"

definition empty_store :: store where
  "empty_store = \<lparr>entries = [], folder_entries = Map.empty, conflicts = []\<rparr>"

definition refCount :: "store \<Rightarrow> string \<Rightarrow> nat" where
  "refCount st p = (case map_of (entries st) p of Some e \<Rightarrow> ownerRefCount e | None \<Rightarrow> 0)"

definition exists_in :: "store \<Rightarrow> string \<Rightarrow> bool" where
  "exists_in st p = (map_of (entries st) p \<noteq> None)"

text \<open>
  Modelled from the spec: "for every resolved path: if absent in the store, insert with
  refCount=1; if present, increment refCount and, if the new registration's metadata
  differs incompatibly (different type at the same path), report a conflict diagnostic
  rather than silently overwriting", "never resetting the currently-committed value".
\<close>

definition register_input :: "store \<Rightarrow> string \<times> string \<times> jsval \<Rightarrow> store" where
  "register_input st i =
     (case i of (p, ty, v) \<Rightarrow>
        (case map_of (entries st) p of
           None \<Rightarrow>
             st\<lparr>entries := AList.update p
                   \<lparr>entry_type = ty, entry_value = v, ownerRefCount = 1\<rparr> (entries st)\<rparr>
         | Some e \<Rightarrow>
             st\<lparr>entries := AList.update p (e\<lparr>ownerRefCount := Suc (ownerRefCount e)\<rparr>) (entries st),
                conflicts := (if entry_type e \<noteq> ty then conflicts st @ [p] else conflicts st)\<rparr>))"

text \<open>
  Modelled from the spec: "folder settings are recorded once per resolved folder path",
  the first caller's settings win.
\<close>

definition register_folder :: "store \<Rightarrow> string \<times> jsval \<Rightarrow> store" where
  "register_folder st f =
     (case folder_entries st (fst f) of
        None \<Rightarrow> st\<lparr>folder_entries := (folder_entries st)(fst f \<mapsto> snd f)\<rparr>
      | Some recorded \<Rightarrow> st)"

definition register :: "registration \<Rightarrow> store \<Rightarrow> store" where
  "register r st = foldl register_input (foldl register_folder st (reg_folders r)) (reg_inputs r)"

text \<open>
  Modelled from the spec: a folder has no explicit children; "children are derived by
  prefix match". A path is a child path of a folder when it starts with the folder's path
  and a dot.
\<close>

definition is_descendant :: "string \<Rightarrow> string \<Rightarrow> bool" where
  "is_descendant f q = (take (Suc (length f)) q = f @ ''.'')"

definition has_children :: "string \<Rightarrow> (string \<times> entry) list \<Rightarrow> bool" where
  "has_children f es = list_ex (\<lambda>qe. is_descendant f (fst qe)) es"

text \<open>
  Modelled from the spec: after a path is removed, "if the owning folder now has zero
  remaining child paths, remove the folder entry too". Every folder the path is a child
  path of is looked at.
\<close>

definition prune_folders :: "string \<Rightarrow> store \<Rightarrow> store" where
  "prune_folders p st =
     st\<lparr>folder_entries :=
          (\<lambda>f. if is_descendant f p \<and> \<not> has_children f (entries st) then None
               else folder_entries st f)\<rparr>"

text \<open>
  Modelled from the spec: on teardown "decrement refCount for every path it previously
  owned; at refCount==0, remove the path" and prune the folders.
\<close>

definition release_path :: "store \<Rightarrow> string \<Rightarrow> store" where
  "release_path st p =
     (case map_of (entries st) p of
        None \<Rightarrow> st
      | Some e \<Rightarrow>
          if ownerRefCount e - 1 = 0 then
            prune_folders p (st\<lparr>entries := AList.delete p (entries st)\<rparr>)
          else
            st\<lparr>entries := AList.update p (e\<lparr>ownerRefCount := ownerRefCount e - 1\<rparr>) (entries st)\<rparr>)"

definition teardown :: "registration \<Rightarrow> store \<Rightarrow> store" where
  "teardown r st = foldl release_path st (reg_paths r)"

text \<open>
  Modelled from the spec: a sequence of registrations and teardowns against one store. A
  registration resolves each of its paths once; a teardown is that of a registration that
  is active, that is, made earlier and not torn down since.
\<close>

datatype event = Register registration | Teardown registration

fun apply_event :: "store \<Rightarrow> event \<Rightarrow> store" where
  "apply_event st (Register r) = register r st"
| "apply_event st (Teardown r) = teardown r st"

definition run :: "event list \<Rightarrow> store \<Rightarrow> store" where
  "run evs st = foldl apply_event st evs"

fun valid_events :: "registration list \<Rightarrow> event list \<Rightarrow> bool" where
  "valid_events active [] = True"
| "valid_events active (Register r # evs) =
     (distinct (reg_paths r) \<and> valid_events (r # active) evs)"
| "valid_events active (Teardown r # evs) =
     (r \<in> set active \<and> valid_events (remove1 r active) evs)"

fun registers :: "string \<Rightarrow> event \<Rightarrow> bool" where
  "registers p (Register r) = (p \<in> set (reg_paths r))"
| "registers p (Teardown r) = False"

fun tears_down :: "string \<Rightarrow> event \<Rightarrow> bool" where
  "tears_down p (Register r) = False"
| "tears_down p (Teardown r) = (p \<in> set (reg_paths r))"

definition registrations_touching :: "string \<Rightarrow> event list \<Rightarrow> nat" where
  "registrations_touching p evs = length (filter (registers p) evs)"

definition teardowns_touching :: "string \<Rightarrow> event list \<Rightarrow> nat" where
  "teardowns_touching p evs = length (filter (tears_down p) evs)"

text \<open>
  Two notions for the proofs: every stored entry has at least one owner, and the number of
  the registrations of a list that touch a path.
\<close>

definition positive :: "store \<Rightarrow> bool" where
  "positive st = (\<forall>p e. map_of (entries st) p = Some e \<longrightarrow> 0 < ownerRefCount e)"

definition touching :: "string \<Rightarrow> registration list \<Rightarrow> nat" where
  "touching p rs = length (filter (\<lambda>r. p \<in> set (reg_paths r)) rs)"

section \<open>Example inputs\<close>

text \<open>Concrete stores and callbacks on which the theorems below are exercised.\<close>

definition example_data :: Data where
  "example_data =
     [''camera.x'' \<mapsto> \<lparr>item_key = ''x'', item_value = Some (JNum 10), item_disabled = False\<rparr>,
      ''light.intensity'' \<mapsto>
        \<lparr>item_key = ''intensity'', item_value = Some (JNum 1), item_disabled = True\<rparr>,
      ''reset'' \<mapsto> \<lparr>item_key = ''reset'', item_value = None, item_disabled = False\<rparr>]"


text \<open>
  A \<^verbatim>\<open>setValue\<close> over a store holding one number in \<open>[0, 10]\<close>: an out-of-range number is
  refused with a sanitization failure that carries the stored value, anything that is not
  a number makes it throw a plain string.
\<close>

fun example_setValue :: "jsval \<Rightarrow> jsval \<Rightarrow> completion \<times> jsval" where
  "example_setValue (JNum n) stored =
     (if 0 \<le> n \<and> n \<le> 10 then (Returned, JNum n)
      else (Thrown (JObj [''type'' \<mapsto> JStr ''LEVA_ERROR'', ''previousValue'' \<mapsto> stored]),
            stored))"
| "example_setValue v stored = (Thrown (JStr ''not a number''), stored)"

definition example_format :: "string \<Rightarrow> jsval \<Rightarrow> unit \<Rightarrow> jsval" where
  "example_format ty v settings = v"

text \<open>
  The parameter objects of three calls of the headless hook:
  \<^verbatim>\<open>useControls('Panel', { x: 0 }, [1, 2])\<close>,
  \<^verbatim>\<open>useControls('Panel', { x: 0 }, { store })\<close> and \<^verbatim>\<open>useControls('', { x: 0 })\<close>.
  The five raw arguments are the call's. The folder name is the string given first; the
  parsed hook settings are the object that carries the store, and none in the other two
  calls.
\<close>

definition deps_call :: params where
  "deps_call =
     \<lparr>folderName = Some ''Panel'',
      schemaOrFolderName = JStr ''Panel'',
      settingsOrDepsOrSchema = JObj [''x'' \<mapsto> JNum 0],
      depsOrSettingsOrFolderSettings = JArr [JNum 1, JNum 2],
      depsOrSettings = JUndefined,
      depsOrUndefined = JUndefined,
      hookSettings = None\<rparr>"

definition store_call :: params where
  "store_call =
     \<lparr>folderName = Some ''Panel'',
      schemaOrFolderName = JStr ''Panel'',
      settingsOrDepsOrSchema = JObj [''x'' \<mapsto> JNum 0],
      depsOrSettingsOrFolderSettings = JObj [''store'' \<mapsto> JObj Map.empty],
      depsOrSettings = JUndefined,
      depsOrUndefined = JUndefined,
      hookSettings = Some [''store'' \<mapsto> JObj Map.empty]\<rparr>"

definition empty_name_call :: params where
  "empty_name_call =
     \<lparr>folderName = Some [],
      schemaOrFolderName = JStr [],
      settingsOrDepsOrSchema = JObj [''x'' \<mapsto> JNum 0],
      depsOrSettingsOrFolderSettings = JUndefined,
      depsOrSettings = JUndefined,
      depsOrUndefined = JUndefined,
      hookSettings = None\<rparr>"

text \<open>
  Modelled from the spec: \<^verbatim>\<open>join\<close> of the utilities, which is not among the sources. A
  path is "dot-segmented (folder.sub.key)"; an entry at the root has its key as its path.
\<close>

definition join_paths :: "string \<Rightarrow> string \<Rightarrow> string" where
  "join_paths rootPath key =
     (if rootPath = [] then key else if key = [] then rootPath else rootPath @ ''.'' @ key)"

text \<open>
  A normalizer for the examples: it recognises a number, and an options object whose
  \<^verbatim>\<open>value\<close> is a number (the other properties are the options); its normalized input
  holds the value only.
\<close>

definition number_input :: "string \<Rightarrow> int \<Rightarrow> js_object \<Rightarrow> normalized" where
  "number_input key n opts =
     \<lparr>n_type = JStr ''NUMBER'', n_options = opts(''key'' \<mapsto> JStr key),
      n_input = [''value'' \<mapsto> JNum n]\<rparr>"

fun example_normalize ::
  "jsval \<Rightarrow> string \<Rightarrow> string \<Rightarrow> (string \<Rightarrow> js_object option) \<Rightarrow> normalized option" where
  "example_normalize (JNum n) key p d = Some (number_input key n Map.empty)"
| "example_normalize (JObj m) key p d =
     (case m ''value'' of
        Some (JNum n) \<Rightarrow> Some (number_input key n (m(''value'' := None)))
      | _ \<Rightarrow> None)"
| "example_normalize v key p d = None"

definition plain_mapping :: "string \<Rightarrow> mapped_path" where
  "plain_mapping p =
     \<lparr>path = p, onChange = JUndefined, transient = JUndefined,
      onEditStart = JUndefined, onEditEnd = JUndefined\<rparr>"

definition speed_input :: js_object where
  "speed_input =
     [''value'' \<mapsto> JNum 1, ''label'' \<mapsto> JStr ''Speed'', ''onChange'' \<mapsto> JFun 0,
      ''transient'' \<mapsto> JBool False]"

text \<open>The registrations of the two scenarios of section 8 of the specification.\<close>

definition folder_registration :: registration where
  "folder_registration =
     \<lparr>reg_inputs = [(''f.a'', ''NUMBER'', JNum 1), (''f.b'', ''NUMBER'', JNum 2)],
      reg_folders = [(''f'', JUndefined)]\<rparr>"

definition x_registration :: registration where
  "x_registration = \<lparr>reg_inputs = [(''x'', ''NUMBER'', JNum 1)], reg_folders = []\<rparr>"

section \<open>Properties of the headless argument list\<close>

text \<open>
  Whatever the arguments, the list built for the base hook has five slots when a
  non-empty folder name was parsed and three otherwise. Its hook-settings slot (the
  fourth, or the second) is an object whose \<^verbatim>\<open>headless\<close> is \<^verbatim>\<open>true\<close>, also when the
  caller's hook settings said \<^verbatim>\<open>false\<close>, and whose other properties are the parsed
  hook settings'. The other slots are copies of the raw arguments.
\<close>

lemma reconstructArgs_slots:
  "(let r = reconstructArgsWithHeadless p;
        inherited = (case hookSettings p of None \<Rightarrow> Map.empty | Some m \<Rightarrow> m)
    in if truthy_name (folderName p) then
         length r = 5 \<and>
         r ! 0 = schemaOrFolderName p \<and>
         r ! 1 = settingsOrDepsOrSchema p \<and>
         r ! 2 = depsOrSettingsOrFolderSettings p \<and>
         isHookSettings (r ! 3) \<and>
         get_prop (r ! 3) ''headless'' = JBool True \<and>
         (\<forall>k. k \<noteq> ''headless'' \<longrightarrow> get_prop (r ! 3) k = get_prop (JObj inherited) k) \<and>
         r ! 4 = (if isHookSettings (depsOrSettings p) then depsOrUndefined p
                  else depsOrSettings p)
       else
         length r = 3 \<and>
         r ! 0 = schemaOrFolderName p \<and>
         isHookSettings (r ! 1) \<and>
         get_prop (r ! 1) ''headless'' = JBool True \<and>
         (\<forall>k. k \<noteq> ''headless'' \<longrightarrow> get_prop (r ! 1) k = get_prop (JObj inherited) k) \<and>
         r ! 2 = (if isHookSettings (settingsOrDepsOrSchema p)
                  then depsOrSettingsOrFolderSettings p else settingsOrDepsOrSchema p))"
  by (simp add: reconstructArgsWithHeadless_def createHeadlessSettings_def Let_def)

text \<open>
  C9. The claim asks that, for every form of call the headless hook accepts, the
  schema, the folder name, the folder settings and the dependency list sit in their
  slots of the list, (name, schema, folder settings, hook settings, dependencies) or
  (schema, hook settings, dependencies). The folder branch never tests its third
  argument, which the signature also lets be a dependency list or hook settings, and
  the branch is chosen by the truth of the folder name. So for a folder-named call with
  a dependency list third, the list sits in the folder-settings slot and the
  dependencies slot is \<^verbatim>\<open>undefined\<close>; with hook settings third, they sit in the
  folder-settings slot; and with the empty folder name the schema is in no slot.
\<close>

theorem reconstructArgs_misplaces_third_argument:
  "reconstructArgsWithHeadless deps_call =
     [JStr ''Panel'', JObj [''x'' \<mapsto> JNum 0], JArr [JNum 1, JNum 2],
      JObj [''headless'' \<mapsto> JBool True], JUndefined] \<and>
   reconstructArgsWithHeadless store_call =
     [JStr ''Panel'', JObj [''x'' \<mapsto> JNum 0], JObj [''store'' \<mapsto> JObj Map.empty],
      JObj [''store'' \<mapsto> JObj Map.empty, ''headless'' \<mapsto> JBool True], JUndefined] \<and>
   reconstructArgsWithHeadless empty_name_call =
     [JStr [], JObj [''headless'' \<mapsto> JBool True], JUndefined]"
  by (simp add: reconstructArgsWithHeadless_def createHeadlessSettings_def Let_def
      deps_call_def store_call_def empty_name_call_def)

section \<open>Properties of \<^verbatim>\<open>onUpdate\<close>\<close>

text \<open>
  C1. When the \<^verbatim>\<open>setValue\<close> called by \<^verbatim>\<open>onUpdate\<close> throws a value whose
  \<^verbatim>\<open>type\<close> is \<^verbatim>\<open>'LEVA_ERROR'\<close>, \<^verbatim>\<open>onUpdate\<close> returns normally and the display value
  becomes the formatted \<^verbatim>\<open>previousValue\<close> of that error. When it throws any other value
  whose properties can be read (anything but \<^verbatim>\<open>null\<close> and \<^verbatim>\<open>undefined\<close>),
  \<^verbatim>\<open>onUpdate\<close> throws that same value and leaves the display value alone.
\<close>

theorem onUpdate_catches_sanitization_failure:
  assumes "setValue updatedValue (world st) = (Thrown err, w)"
  shows "(get_prop err ''type'' = JStr ''LEVA_ERROR'' \<longrightarrow>
            onUpdate format ty settings setValue updatedValue st =
              (Returned, st\<lparr>world := w,
                  displayValue := format ty (get_prop err ''previousValue'') settings\<rparr>)) \<and>
         (\<not> nullish err \<and> get_prop err ''type'' \<noteq> JStr ''LEVA_ERROR'' \<longrightarrow>
            onUpdate format ty settings setValue updatedValue st =
              (Thrown err, st\<lparr>world := w\<rparr>))"
proof -
  have "get_prop err ''type'' = JStr ''LEVA_ERROR'' \<Longrightarrow> \<not> nullish err"
    by (cases err) auto
  then show ?thesis
    using assms by (auto simp: onUpdate_def Let_def)
qed

theorem onUpdate_catches_sanitization_failure_witness:
  "onUpdate example_format ''NUMBER'' () example_setValue (JNum 999)
     \<lparr>world = JNum 5, displayValue = JNum 999\<rparr> =
     (Returned, \<lparr>world = JNum 5, displayValue = JNum 5\<rparr>) \<and>
   onUpdate example_format ''NUMBER'' () example_setValue (JStr ''abc'')
     \<lparr>world = JNum 5, displayValue = JStr ''abc''\<rparr> =
     (Thrown (JStr ''not a number''), \<lparr>world = JNum 5, displayValue = JStr ''abc''\<rparr>)"
proof -
  have refused: "example_setValue (JNum 999) (world \<lparr>world = JNum 5, displayValue = JNum 999\<rparr>) =
      (Thrown (JObj [''type'' \<mapsto> JStr ''LEVA_ERROR'', ''previousValue'' \<mapsto> JNum 5]), JNum 5)"
    by simp
  have other: "example_setValue (JStr ''abc'')
        (world \<lparr>world = JNum 5, displayValue = JStr ''abc''\<rparr>) =
      (Thrown (JStr ''not a number''), JNum 5)"
    by simp
  show ?thesis
    using onUpdate_catches_sanitization_failure [where setValue = example_setValue
          and updatedValue = "JNum 999" and st = "\<lparr>world = JNum 5, displayValue = JNum 999\<rparr>"
          and err = "JObj [''type'' \<mapsto> JStr ''LEVA_ERROR'', ''previousValue'' \<mapsto> JNum 5]"
          and w = "JNum 5" and format = example_format and ty = "''NUMBER''"
          and settings = "()", OF refused]
      onUpdate_catches_sanitization_failure [where setValue = example_setValue
          and updatedValue = "JStr ''abc''" and st = "\<lparr>world = JNum 5, displayValue = JStr ''abc''\<rparr>"
          and err = "JStr ''not a number''"
          and w = "JNum 5" and format = example_format and ty = "''NUMBER''"
          and settings = "()", OF other]
    by (simp add: example_format_def)
qed

section \<open>Properties of the value snapshots\<close>

lemma useValues_foldl:
  "foldl (\<lambda>acc path.
            case data path of
              None \<Rightarrow> acc
            | Some e \<Rightarrow>
                (case item_value e of
                   None \<Rightarrow> acc
                 | Some v \<Rightarrow> if path = ''__proto__'' then acc else acc(path \<mapsto> v)))
       acc paths p =
   (case (if p \<in> set paths \<and> p \<noteq> ''__proto__'' then Option.bind (data p) item_value
          else None) of
      Some v \<Rightarrow> Some v | None \<Rightarrow> acc p)"
  by (induction paths arbitrary: acc) (auto split: option.splits)

lemma useValues_apply:
  "useValues data paths q =
     (if q \<in> set paths \<and> q \<noteq> ''__proto__''
      then (case data q of None \<Rightarrow> None | Some e \<Rightarrow> item_value e) else None)"
  unfolding useValues_def useValues_foldl by (auto split: option.splits)

text \<open>
  C10. Let the data hold nothing under \<^verbatim>\<open>__proto__\<close> (no registration can put an
  entry there). The object that the selector of \<^verbatim>\<open>useValues\<close> returns has, for a
  requested path that is in the data and whose item has a \<^verbatim>\<open>value\<close> property, that
  value; it has no other key. A path that is not in the data is left out, where the
  \<^verbatim>\<open>get\<close> accessor raises.
\<close>

theorem useValues_omits_unknown:
  assumes "data ''__proto__'' = None"
  shows "useValues data paths p =
     (if p \<in> set paths then (case data p of None \<Rightarrow> None | Some e \<Rightarrow> item_value e) else None) \<and>
   dom (useValues data paths) =
     {q \<in> set paths. \<exists>e v. data q = Some e \<and> item_value e = Some v} \<and>
   (data p = None \<longrightarrow>
      useValues data paths p = None \<and> get_accessor data p = Inl Unknown_path)"
proof -
  have eq: "useValues data paths q =
     (if q \<in> set paths then (case data q of None \<Rightarrow> None | Some e \<Rightarrow> item_value e) else None)"
    for q
    using assms by (auto simp: useValues_apply)
  have "dom (useValues data paths) =
     {q \<in> set paths. \<exists>e v. data q = Some e \<and> item_value e = Some v}"
    by (auto simp: eq dom_def split: option.splits if_splits)
  then show ?thesis
    by (simp add: eq get_accessor_def)
qed

theorem useValues_omits_unknown_witness:
  "useValues example_data [''camera.x'', ''reset'', ''nowhere''] ''nowhere'' = None \<and>
   useValues example_data [''camera.x'', ''reset'', ''nowhere''] ''reset'' = None \<and>
   useValues example_data [''camera.x'', ''reset'', ''nowhere''] ''camera.x'' = Some (JNum 10) \<and>
   get_accessor example_data ''nowhere'' = Inl Unknown_path"
proof -
  have ordinary: "example_data ''__proto__'' = None"
    by (simp add: example_data_def)
  show ?thesis
    using useValues_omits_unknown [where data = example_data
          and paths = "[''camera.x'', ''reset'', ''nowhere'']" and p = "''nowhere''", OF ordinary]
      useValues_omits_unknown [where data = example_data
          and paths = "[''camera.x'', ''reset'', ''nowhere'']" and p = "''reset''", OF ordinary]
      useValues_omits_unknown [where data = example_data
          and paths = "[''camera.x'', ''reset'', ''nowhere'']" and p = "''camera.x''", OF ordinary]
    by (simp add: example_data_def)
qed

lemma set_object_entries: "set (object_entries kvs) = set kvs"
  by (auto simp: object_entries_def)

lemma set_update_same:
  "\<forall>(k', e') \<in> set obj. data k' = Some e' \<Longrightarrow> data k = Some e \<Longrightarrow>
   set (AList.update k e obj) = insert (k, e) (set obj)"
  by (induction obj) auto

lemma set_pick_foldl:
  "\<forall>(k', e') \<in> set obj. data k' = Some e' \<Longrightarrow>
   set (foldl (\<lambda>obj k. case data k of Some e \<Rightarrow> AList.update k e obj | None \<Rightarrow> obj) obj keys) =
     set obj \<union> {(k, e). k \<in> set keys \<and> data k = Some e}"
proof (induction keys arbitrary: obj)
  case Nil
  then show ?case by simp
next
  case (Cons k keys)
  show ?case
  proof (cases "data k")
    case None
    then show ?thesis using Cons by auto
  next
    case (Some e)
    have inv: "\<forall>(k', e') \<in> set (AList.update k e obj). data k' = Some e'"
      using Cons.prems Some by (simp add: set_update_same)
    show ?thesis
      using Cons.IH [OF inv] Cons.prems Some by (auto simp: set_update_same)
  qed
qed

lemma set_pick: "set (pick data keys) = {(k, e). k \<in> set keys \<and> data k = Some e}"
  unfolding pick_def by (subst set_pick_foldl) auto

lemma reducer_apply:
  "reducer acc entry k =
     (if k = item_key (snd entry) \<and> k \<noteq> ''__proto__'' then Some (shown_value (snd entry))
      else acc k)"
  by (simp add: reducer_def)

lemma reducer_untouched:
  "\<forall>entry \<in> set xs. item_key (snd entry) \<noteq> k \<Longrightarrow> foldl reducer acc xs k = acc k"
  by (induction xs arbitrary: acc) (auto simp: reducer_apply)

lemma reducer_agreed:
  "\<forall>entry \<in> set xs. item_key (snd entry) = k \<longrightarrow> shown_value (snd entry) = v \<Longrightarrow>
   \<exists>entry \<in> set xs. item_key (snd entry) = k \<Longrightarrow> k \<noteq> ''__proto__'' \<Longrightarrow>
   foldl reducer acc xs k = Some v"
proof (induction xs arbitrary: acc)
  case Nil
  then show ?case by simp
next
  case (Cons x xs)
  show ?case
  proof (cases "\<exists>entry \<in> set xs. item_key (snd entry) = k")
    case True
    with Cons.prems have "foldl reducer (reducer acc x) xs k = Some v"
      by (intro Cons.IH) auto
    then show ?thesis by simp
  next
    case False
    then have later: "\<forall>entry \<in> set xs. item_key (snd entry) \<noteq> k" by simp
    from False Cons.prems have here: "item_key (snd x) = k" "shown_value (snd x) = v" by auto
    have "foldl reducer acc (x # xs) k = reducer acc x k"
      by (simp add: reducer_untouched [OF later])
    also have "reducer acc x k = Some v"
      using here Cons.prems(3) by (simp add: reducer_apply)
    finally show ?thesis .
  qed
qed

lemma getValuesForPaths_unique:
  assumes "p \<in> set paths" and "data p = Some e"
    and "\<forall>q \<in> set paths. \<forall>e'. data q = Some e' \<and> item_key e' = item_key e \<longrightarrow> q = p"
    and "item_key e \<noteq> ''__proto__''"
  shows "getValuesForPaths data paths (item_key e) = Some (shown_value e)"
  unfolding getValuesForPaths_def
proof (rule reducer_agreed)
  show "item_key e \<noteq> ''__proto__''" by (rule assms(4))
  show "\<forall>entry \<in> set (object_entries (pick data paths)).
          item_key (snd entry) = item_key e \<longrightarrow> shown_value (snd entry) = shown_value e"
    using assms by (auto simp: set_object_entries set_pick)
  show "\<exists>entry \<in> set (object_entries (pick data paths)). item_key (snd entry) = item_key e"
    using assms by (force simp: set_object_entries set_pick)
qed


text \<open>
  Where the short keys do not collide the snapshot does what is asked of it. Let a path
  of the list name a disabled item whose short key is not \<^verbatim>\<open>__proto__\<close>, and let no
  other path of the list name an item with the same short key. Then the snapshot of
  \<^verbatim>\<open>getValuesForPaths\<close> has \<^verbatim>\<open>undefined\<close> under that short key; and in the data
  that differs only by the flag of that item being cleared, the snapshot has the item's
  stored value there (\<^verbatim>\<open>undefined\<close> if the item has none).
\<close>

lemma disabled_reads_undefined:
  assumes "p \<in> set paths" and "data p = Some e" and "item_disabled e"
    and "\<forall>q \<in> set paths. \<forall>e'. data q = Some e' \<and> item_key e' = item_key e \<longrightarrow> q = p"
    and "item_key e \<noteq> ''__proto__''"
  shows "getValuesForPaths data paths (item_key e) = Some JUndefined \<and>
         getValuesForPaths (data(p \<mapsto> e\<lparr>item_disabled := False\<rparr>)) paths (item_key e) =
           Some (case item_value e of Some v \<Rightarrow> v | None \<Rightarrow> JUndefined)"
proof -
  define e1 where "e1 = e\<lparr>item_disabled := False\<rparr>"
  define data1 where "data1 = data(p \<mapsto> e1)"
  have key1: "item_key e1 = item_key e" and shown1:
    "shown_value e1 = (case item_value e of Some v \<Rightarrow> v | None \<Rightarrow> JUndefined)"
    by (simp_all add: e1_def shown_value_def)
  have "getValuesForPaths data paths (item_key e) = Some (shown_value e)"
    using assms(1,2,4,5) by (rule getValuesForPaths_unique)
  then have first: "getValuesForPaths data paths (item_key e) = Some JUndefined"
    using assms(3) by (simp add: shown_value_def)
  have at_p: "data1 p = Some e1"
    by (simp add: data1_def)
  have only: "\<forall>q \<in> set paths. \<forall>e'. data1 q = Some e' \<and> item_key e' = item_key e1 \<longrightarrow> q = p"
  proof (intro ballI allI impI)
    fix q e' assume q: "q \<in> set paths" and h: "data1 q = Some e' \<and> item_key e' = item_key e1"
    show "q = p"
    proof (rule ccontr)
      assume "q \<noteq> p"
      with h have "data q = Some e' \<and> item_key e' = item_key e"
        by (simp add: data1_def key1)
      with assms(4) q have "q = p" by blast
      with \<open>q \<noteq> p\<close> show False by simp
    qed
  qed
  have "getValuesForPaths data1 paths (item_key e1) = Some (shown_value e1)"
    using assms(1) at_p only assms(5) [folded key1] by (rule getValuesForPaths_unique)
  then have "getValuesForPaths data1 paths (item_key e) =
      Some (case item_value e of Some v \<Rightarrow> v | None \<Rightarrow> JUndefined)"
    by (simp only: key1 shown1)
  then show ?thesis
    using first unfolding data1_def e1_def by simp
qed


lemma disabled_reads_undefined_example:
  "getValuesForPaths example_data [''camera.x'', ''light.intensity''] ''intensity'' =
     Some JUndefined \<and>
   getValuesForPaths
     (example_data(''light.intensity'' \<mapsto>
        \<lparr>item_key = ''intensity'', item_value = Some (JNum 1), item_disabled = False\<rparr>))
     [''camera.x'', ''light.intensity''] ''intensity'' = Some (JNum 1)"
proof -
  have listed: "''light.intensity'' \<in> set [''camera.x'', ''light.intensity'']"
    by simp
  have stored: "example_data ''light.intensity'' =
      Some \<lparr>item_key = ''intensity'', item_value = Some (JNum 1), item_disabled = True\<rparr>"
    by (simp add: example_data_def)
  have disabled: "item_disabled
      \<lparr>item_key = ''intensity'', item_value = Some (JNum 1), item_disabled = True\<rparr>"
    by simp
  have only: "\<forall>q \<in> set [''camera.x'', ''light.intensity'']. \<forall>e'.
      example_data q = Some e' \<and>
      item_key e' = item_key
        \<lparr>item_key = ''intensity'', item_value = Some (JNum 1), item_disabled = True\<rparr> \<longrightarrow>
      q = ''light.intensity''"
    by (auto simp: example_data_def)
  show ?thesis
    using disabled_reads_undefined [where data = example_data
          and paths = "[''camera.x'', ''light.intensity'']" and p = "''light.intensity''"
          and e = "\<lparr>item_key = ''intensity'', item_value = Some (JNum 1), item_disabled = True\<rparr>",
        OF listed stored disabled only]
    by simp
qed




section \<open>Properties of the path resolver\<close>

text \<open>
  The theorems speak of one call of \<^verbatim>\<open>getDataFromSchema\<close>, with any root path, any
  short-key mapping and any folders; the call made for the schema of a folder is such a
  call. An entry is reached when no entry before it in the same schema has raised. The
  defining equations of the three functions are unfolded by hand in what follows.
\<close>

declare callback.simps [simp del]
declare getDataFromSchema.simps [simp del]

lemma resolver_monotone_aux:
  fixes N1 N2 N3 :: "'r \<Rightarrow> string \<Rightarrow> string \<Rightarrow> (string \<Rightarrow> js_object option) \<Rightarrow> normalized option"
  defines "good \<equiv> \<lambda>d mp fs (out :: 'r outcome).
      mp \<subseteq>\<^sub>m mappedPaths out \<and> fs \<subseteq>\<^sub>m folders out \<and>
      (\<forall>d'. returned out = Inr d' \<longrightarrow> dom d \<subseteq> dom d')"
  defines "P \<equiv> \<lambda>N J schema root mp fs. good Map.empty mp fs (getDataFromSchema N J schema root mp fs)"
    and "Q \<equiv> \<lambda>N J es root d mp fs. good d mp fs (forEach N J es root d mp fs)"
    and "R \<equiv> \<lambda>N J k raw root d mp fs. good d mp fs (callback N J k raw root d mp fs)"
  shows "P N1 J1 schema root1 mp1 fs1"
    and "Q N2 J2 es root2 d2 mp2 fs2"
    and "R N3 J3 k raw root3 d3 mp3 fs3"
proof (induct N1 J1 schema root1 mp1 fs1 and N2 J2 es root2 d2 mp2 fs2
    and N3 J3 k raw root3 d3 mp3 fs3
    rule: getDataFromSchema_forEach_callback.induct)
  case (1 normalizeInput join schema rootPath mp fs)
  then show ?case by (simp add: P_def Q_def getDataFromSchema.simps)
next
  case (2 normalizeInput join rootPath data mp fs)
  then show ?case by (simp add: Q_def good_def)
next
  case (3 normalizeInput join e es rootPath data mp fs)
  define o1 where "o1 = callback normalizeInput join (fst e) (snd e) rootPath data mp fs"
  have step: "good data mp fs o1"
    using 3(1) by (simp add: R_def o1_def)
  show ?case
  proof (cases "returned o1")
    case (Inl err)
    then show ?thesis using step by (simp add: Q_def o1_def [symmetric] Let_def)
  next
    case (Inr data1)
    define o2 where
      "o2 = forEach normalizeInput join es rootPath data1 (mappedPaths o1) (folders o1)"
    have rest: "good data1 (mappedPaths o1) (folders o1) o2"
      using 3(2) [OF o1_def Inr] by (simp add: Q_def o2_def)
    have eq: "forEach normalizeInput join (e # es) rootPath data mp fs =
        o2\<lparr>warned := warned o1 @ warned o2\<rparr>"
      using Inr by (simp add: o1_def [symmetric] o2_def Let_def)
    have "mp \<subseteq>\<^sub>m mappedPaths o2" "fs \<subseteq>\<^sub>m folders o2"
      using step rest by (auto simp: good_def intro: map_le_trans)
    moreover have "dom data \<subseteq> dom d'" if "returned o2 = Inr d'" for d'
    proof -
      have "dom data \<subseteq> dom data1" using step Inr by (simp add: good_def)
      moreover have "dom data1 \<subseteq> dom d'" using rest that by (simp add: good_def)
      ultimately show ?thesis by (rule subset_trans)
    qed
    ultimately show ?thesis
      unfolding Q_def eq by (simp add: good_def)
  qed
next
  case (4 normalizeInput join key rawInput rootPath data mp fs)
  show ?case
  proof (cases "key = []")
    case True
    then show ?thesis by (simp add: R_def good_def callback.simps)
  next
    case False
    show ?thesis
    proof (cases rawInput)
      case Nullish
      then show ?thesis using False by (simp add: R_def good_def callback.simps)
    next
      case (Folder schema settings)
      define o1 where
        "o1 = getDataFromSchema normalizeInput join schema (join rootPath key) mp fs"
      have sub: "mp \<subseteq>\<^sub>m mappedPaths o1 \<and> fs \<subseteq>\<^sub>m folders o1"
        using 4 [OF False refl Folder] by (simp add: P_def good_def o1_def)
      show ?thesis
      proof (cases "returned o1")
        case (Inl err)
        then show ?thesis
          using sub False Folder
          by (simp add: R_def good_def callback.simps o1_def [symmetric] Let_def)
      next
        case (Inr newData)
        have "folders o1 \<subseteq>\<^sub>m (folders o1)(join rootPath key \<mapsto> settings)"
          if "join rootPath key \<notin> dom (folders o1)"
          using that by (auto simp: map_le_def)
        then show ?thesis
          using sub False Folder Inr
          by (auto simp: R_def good_def callback.simps o1_def [symmetric] Let_def
              intro: map_le_trans)
      qed
    next
      case (Input r)
      then show ?thesis using False
        by (auto simp: R_def good_def callback.simps Let_def map_le_def split: option.splits if_splits)
    qed
  qed
qed


lemma forEach_monotone:
  "mp \<subseteq>\<^sub>m mappedPaths (forEach N J es root d mp fs)"
  "fs \<subseteq>\<^sub>m folders (forEach N J es root d mp fs)"
  "returned (forEach N J es root d mp fs) = Inr d' \<Longrightarrow> dom d \<subseteq> dom d'"
  using resolver_monotone_aux(2) [of mp N J es root d fs] by simp_all

lemma getDataFromSchema_monotone:
  "mp \<subseteq>\<^sub>m mappedPaths (getDataFromSchema N J schema root mp fs)"
  "fs \<subseteq>\<^sub>m folders (getDataFromSchema N J schema root mp fs)"
  by (simp_all add: getDataFromSchema.simps forEach_monotone)

lemma callback_monotone:
  "mp \<subseteq>\<^sub>m mappedPaths (callback N J k raw root d mp fs)"
  "fs \<subseteq>\<^sub>m folders (callback N J k raw root d mp fs)"
  "returned (callback N J k raw root d mp fs) = Inr d' \<Longrightarrow> dom d \<subseteq> dom d'"
  using resolver_monotone_aux(3) [of mp N J k raw root d fs] by simp_all

lemma forEach_append:
  "forEach N J (xs @ ys) root d mp fs =
     (let o1 = forEach N J xs root d mp fs in
      case returned o1 of
        Inl err \<Rightarrow> o1
      | Inr d1 \<Rightarrow>
          (let o2 = forEach N J ys root d1 (mappedPaths o1) (folders o1)
           in o2\<lparr>warned := warned o1 @ warned o2\<rparr>))"
proof (induction xs arbitrary: d mp fs)
  case Nil
  then show ?case by simp
next
  case (Cons x xs)
  show ?case
    by (simp add: Cons.IH Let_def split: sum.splits)
qed


lemma forEach_raised_prefix:
  "returned (forEach N J pre root d mp fs) = Inl err \<Longrightarrow>
   forEach N J (pre @ ys) root d mp fs = forEach N J pre root d mp fs"
  by (simp add: forEach_append Let_def)

lemma forEach_continues:
  "returned (forEach N J pre root d mp fs) = Inr d1 \<Longrightarrow>
   forEach N J (pre @ ys) root d mp fs =
     (forEach N J ys root d1 (mappedPaths (forEach N J pre root d mp fs))
        (folders (forEach N J pre root d mp fs)))
     \<lparr>warned := warned (forEach N J pre root d mp fs) @
        warned (forEach N J ys root d1 (mappedPaths (forEach N J pre root d mp fs))
          (folders (forEach N J pre root d mp fs)))\<rparr>"
  by (simp add: forEach_append Let_def)

lemma skipped_entry_outcome:
  assumes pre: "returned (getDataFromSchema N J pre root mp fs) = Inr d1"
    and step: "callback N J k raw root d1 (mappedPaths (getDataFromSchema N J pre root mp fs))
        (folders (getDataFromSchema N J pre root mp fs)) =
      \<lparr>returned = Inr d1, mappedPaths = mappedPaths (getDataFromSchema N J pre root mp fs),
       folders = folders (getDataFromSchema N J pre root mp fs), warned = [w]\<rparr>"
  shows "let o1 = getDataFromSchema N J pre root mp fs;
             o2 = forEach N J post root d1 (mappedPaths o1) (folders o1);
             a = getDataFromSchema N J (pre @ (k, raw) # post) root mp fs;
             b = getDataFromSchema N J (pre @ post) root mp fs
         in returned a = returned o2 \<and> mappedPaths a = mappedPaths o2 \<and> folders a = folders o2 \<and>
            returned b = returned o2 \<and> mappedPaths b = mappedPaths o2 \<and> folders b = folders o2 \<and>
            warned a = warned o1 @ w # warned o2 \<and> warned b = warned o1 @ warned o2"
proof -
  define o1 where "o1 = forEach N J pre root Map.empty mp fs"
  define o2 where "o2 = forEach N J post root d1 (mappedPaths o1) (folders o1)"
  have pre': "returned o1 = Inr d1"
    using pre by (simp add: getDataFromSchema.simps o1_def)
  have a: "forEach N J (pre @ (k, raw) # post) root Map.empty mp fs =
      o2\<lparr>warned := warned o1 @ w # warned o2\<rparr>"
    using step pre'
    by (simp add: forEach_continues [OF pre' [unfolded o1_def]] getDataFromSchema.simps
        o1_def [symmetric] o2_def [symmetric] Let_def)
  have b: "forEach N J (pre @ post) root Map.empty mp fs = o2\<lparr>warned := warned o1 @ warned o2\<rparr>"
    by (simp add: forEach_continues [OF pre' [unfolded o1_def]] o1_def [symmetric]
        o2_def [symmetric])
  show ?thesis
    by (simp add: getDataFromSchema.simps a b o1_def [symmetric] o2_def [symmetric] Let_def)
qed

text \<open>
  C4. An entry with the empty key leaves the walk as it would be without the entry: the
  data returned (or the error raised), the short-key mapping and the folders are those of
  the schema without it, so every sibling is processed as before. When the walk reaches
  the entry (no earlier sibling raised), the entry adds the one diagnostic
  \<^verbatim>\<open>EMPTY_KEY\<close>, between the diagnostics of the entries before and after it.
\<close>

theorem empty_key_is_skipped:
  "let o1 = getDataFromSchema N J pre root mp fs;
       a = getDataFromSchema N J (pre @ ([], raw) # post) root mp fs;
       b = getDataFromSchema N J (pre @ post) root mp fs
   in returned a = returned b \<and> mappedPaths a = mappedPaths b \<and> folders a = folders b \<and>
      (\<forall>d1. returned o1 = Inr d1 \<longrightarrow>
         warned a = warned o1 @ EMPTY_KEY #
           warned (forEach N J post root d1 (mappedPaths o1) (folders o1)) \<and>
         warned b = warned o1 @
           warned (forEach N J post root d1 (mappedPaths o1) (folders o1)))"
proof (cases "returned (getDataFromSchema N J pre root mp fs)")
  case (Inl err)
  then have "returned (forEach N J pre root Map.empty mp fs) = Inl err"
    by (simp add: getDataFromSchema.simps)
  then show ?thesis
    by (simp add: getDataFromSchema.simps forEach_raised_prefix Let_def)
next
  case (Inr d1)
  have "callback N J [] raw root d1 (mappedPaths (getDataFromSchema N J pre root mp fs))
        (folders (getDataFromSchema N J pre root mp fs)) =
      \<lparr>returned = Inr d1, mappedPaths = mappedPaths (getDataFromSchema N J pre root mp fs),
       folders = folders (getDataFromSchema N J pre root mp fs), warned = [EMPTY_KEY]\<rparr>"
    by (simp add: callback.simps)
  from skipped_entry_outcome [OF Inr this, of post] Inr show ?thesis
    by (simp add: Let_def)
qed


text \<open>
  C8. Let the walk reach an entry that is not a folder, whose key is not empty and not
  \<^verbatim>\<open>in\<close> the short-key mapping, and for which \<^verbatim>\<open>normalizeInput\<close> returns nothing. Then
  the entry changes neither the data nor the short-key mapping nor the folders and warns
  \<^verbatim>\<open>UNKNOWN_INPUT\<close> with its path and raw value; the walk goes on with the remaining
  siblings, and its data, mapping and folders are those of the schema without the entry.
\<close>

theorem unknown_input_is_skipped:
  assumes "returned (getDataFromSchema N J pre root mp fs) = Inr dpre"
    and "k \<noteq> []"
    and "mappedPaths (getDataFromSchema N J pre root mp fs) k = None"
    and "\<not> inherited k"
    and "N r k (J root k) dpre = None"
  shows "let o1 = getDataFromSchema N J pre root mp fs;
             o2 = forEach N J post root dpre (mappedPaths o1) (folders o1);
             a = getDataFromSchema N J (pre @ (k, Input r) # post) root mp fs;
             b = getDataFromSchema N J (pre @ post) root mp fs
         in callback N J k (Input r) root dpre (mappedPaths o1) (folders o1) =
              \<lparr>returned = Inr dpre, mappedPaths = mappedPaths o1, folders = folders o1,
               warned = [UNKNOWN_INPUT (J root k) r]\<rparr> \<and>
            returned a = returned b \<and> mappedPaths a = mappedPaths b \<and> folders a = folders b \<and>
            warned a = warned o1 @ UNKNOWN_INPUT (J root k) r # warned o2 \<and>
            warned b = warned o1 @ warned o2"
proof -
  have step: "callback N J k (Input r) root dpre (mappedPaths (getDataFromSchema N J pre root mp fs))
        (folders (getDataFromSchema N J pre root mp fs)) =
      \<lparr>returned = Inr dpre, mappedPaths = mappedPaths (getDataFromSchema N J pre root mp fs),
       folders = folders (getDataFromSchema N J pre root mp fs),
       warned = [UNKNOWN_INPUT (J root k) r]\<rparr>"
    using assms(2-5) by (simp add: callback.simps Let_def)
  from skipped_entry_outcome [OF assms(1) step, of post] step show ?thesis
    by (simp add: Let_def)
qed

text \<open>
  C3. Let the walk reach an entry that is not a folder and whose (non-empty) key is
  already in the short-key mapping. Then the entry changes neither the data nor the
  mapping nor the folders and warns \<^verbatim>\<open>DUPLICATE_KEYS\<close> with the key, its own path and
  the path mapped first; the outcome of the whole walk is that of the schema without the
  entry, the key is still mapped to the first path at the end, and every path that was in
  the data when the entry was reached is in the data returned.
\<close>

theorem duplicate_key_is_dropped:
  assumes "returned (getDataFromSchema N J pre root mp fs) = Inr dpre"
    and "k \<noteq> []"
    and "mappedPaths (getDataFromSchema N J pre root mp fs) k = Some first"
  shows "let o1 = getDataFromSchema N J pre root mp fs;
             o2 = forEach N J post root dpre (mappedPaths o1) (folders o1);
             a = getDataFromSchema N J (pre @ (k, Input r) # post) root mp fs;
             b = getDataFromSchema N J (pre @ post) root mp fs
         in callback N J k (Input r) root dpre (mappedPaths o1) (folders o1) =
              \<lparr>returned = Inr dpre, mappedPaths = mappedPaths o1, folders = folders o1,
               warned = [DUPLICATE_KEYS k (J root k) (JStr (path first))]\<rparr> \<and>
            returned a = returned b \<and> mappedPaths a = mappedPaths b \<and> folders a = folders b \<and>
            warned a = warned o1 @ DUPLICATE_KEYS k (J root k) (JStr (path first)) # warned o2 \<and>
            warned b = warned o1 @ warned o2 \<and>
            mappedPaths a k = Some first \<and>
            (\<forall>d. returned a = Inr d \<longrightarrow> dom dpre \<subseteq> dom d)"
proof -
  define o1 where "o1 = getDataFromSchema N J pre root mp fs"
  define o2 where "o2 = forEach N J post root dpre (mappedPaths o1) (folders o1)"
  have step: "callback N J k (Input r) root dpre (mappedPaths o1) (folders o1) =
      \<lparr>returned = Inr dpre, mappedPaths = mappedPaths o1, folders = folders o1,
       warned = [DUPLICATE_KEYS k (J root k) (JStr (path first))]\<rparr>"
    using assms(2,3) by (simp add: callback.simps Let_def o1_def)
  define a where "a = getDataFromSchema N J (pre @ (k, Input r) # post) root mp fs"
  define b where "b = getDataFromSchema N J (pre @ post) root mp fs"
  have out: "returned a = returned o2 \<and> mappedPaths a = mappedPaths o2 \<and> folders a = folders o2 \<and>
      returned b = returned o2 \<and> mappedPaths b = mappedPaths o2 \<and> folders b = folders o2 \<and>
      warned a = warned o1 @ DUPLICATE_KEYS k (J root k) (JStr (path first)) # warned o2 \<and>
      warned b = warned o1 @ warned o2"
    using skipped_entry_outcome [OF assms(1) step [unfolded o1_def], of post]
    unfolding Let_def o1_def o2_def a_def b_def .
  have "mappedPaths o1 \<subseteq>\<^sub>m mappedPaths o2"
    unfolding o2_def by (rule forEach_monotone)
  then have "mappedPaths o2 k = Some first"
    using assms(3) by (auto simp: map_le_def o1_def dom_def)
  with out have kept: "mappedPaths a k = Some first"
    by simp
  have grows: "dom dpre \<subseteq> dom d" if "returned a = Inr d" for d
  proof -
    from that out have "returned o2 = Inr d" by simp
    then show ?thesis unfolding o2_def by (rule forEach_monotone)
  qed
  show ?thesis
    unfolding Let_def o1_def [symmetric] o2_def [symmetric] a_def [symmetric] b_def [symmetric]
    using step out kept grows by simp
qed


lemma data_entry_side_effects:
  "x \<in> set side_effect_keys \<Longrightarrow> data_entry n x = n_input n x"
  by (auto simp: data_entry_def rest_options_def side_effect_keys_def map_add_def
      split: option.splits)

lemma data_entry_options:
  "x \<notin> set side_effect_keys \<Longrightarrow> x \<noteq> ''fromPanel'' \<Longrightarrow> n_input n x = None \<Longrightarrow>
   data_entry n x = (case n_options n x of Some v \<Rightarrow> Some v
                     | None \<Rightarrow> if x = ''type'' then Some (n_type n) else None)"
  by (auto simp: data_entry_def rest_options_def map_add_def split: option.splits)

lemma resolver_clean_aux:
  fixes N1 N2 N3 :: "'r \<Rightarrow> string \<Rightarrow> string \<Rightarrow> (string \<Rightarrow> js_object option) \<Rightarrow> normalized option"
  defines "clean \<equiv> \<lambda>d :: string \<Rightarrow> js_object option.
      \<forall>p e. d p = Some e \<longrightarrow> (\<forall>x \<in> set side_effect_keys. e x = None)"
  defines "contract \<equiv>
      \<lambda>N :: 'r \<Rightarrow> string \<Rightarrow> string \<Rightarrow> (string \<Rightarrow> js_object option) \<Rightarrow> normalized option.
        \<forall>r k p d n. N r k p d = Some n \<longrightarrow> (\<forall>x \<in> set side_effect_keys. n_input n x = None)"
  defines "P \<equiv> \<lambda>N J schema root mp fs. contract N \<longrightarrow>
      (\<forall>d'. returned (getDataFromSchema N J schema root mp fs) = Inr d' \<longrightarrow> clean d')"
    and "Q \<equiv> \<lambda>N J es root d mp fs. contract N \<longrightarrow> clean d \<longrightarrow>
      (\<forall>d'. returned (forEach N J es root d mp fs) = Inr d' \<longrightarrow> clean d')"
    and "R \<equiv> \<lambda>N J k raw root d mp fs. contract N \<longrightarrow> clean d \<longrightarrow>
      (\<forall>d'. returned (callback N J k raw root d mp fs) = Inr d' \<longrightarrow> clean d')"
  shows "P N1 J1 schema root1 mp1 fs1"
    and "Q N2 J2 es root2 d2 mp2 fs2"
    and "R N3 J3 k raw root3 d3 mp3 fs3"
proof (induct N1 J1 schema root1 mp1 fs1 and N2 J2 es root2 d2 mp2 fs2
    and N3 J3 k raw root3 d3 mp3 fs3
    rule: getDataFromSchema_forEach_callback.induct)
  case (1 normalizeInput join schema rootPath mp fs)
  then show ?case by (simp add: P_def Q_def clean_def getDataFromSchema.simps)
next
  case (2 normalizeInput join rootPath data mp fs)
  then show ?case by (simp add: Q_def)
next
  case (3 normalizeInput join e es rootPath data mp fs)
  define o1 where "o1 = callback normalizeInput join (fst e) (snd e) rootPath data mp fs"
  show ?case
    unfolding Q_def
  proof (intro impI allI)
    fix d'
    assume c: "contract normalizeInput" and d: "clean data"
      and r: "returned (forEach normalizeInput join (e # es) rootPath data mp fs) = Inr d'"
    show "clean d'"
    proof (cases "returned o1")
      case (Inl err)
      then show ?thesis using r by (simp add: o1_def [symmetric] Let_def)
    next
      case (Inr data1)
      have "clean data1"
        using 3(1) c d Inr by (simp add: R_def o1_def)
      moreover have "returned (forEach normalizeInput join es rootPath data1
          (mappedPaths o1) (folders o1)) = Inr d'"
        using r Inr by (simp add: o1_def [symmetric] Let_def)
      ultimately show ?thesis
        using 3(2) [OF o1_def Inr] c by (simp add: Q_def)
    qed
  qed
next
  case (4 normalizeInput join key rawInput rootPath data mp fs)
  show ?case
    unfolding R_def
  proof (intro impI allI)
    fix d'
    assume c: "contract normalizeInput" and d: "clean data"
      and r: "returned (callback normalizeInput join key rawInput rootPath data mp fs) = Inr d'"
    show "clean d'"
    proof (cases "key = []")
      case True
      then show ?thesis using r d by (simp add: callback.simps)
    next
      case False
      show ?thesis
      proof (cases rawInput)
        case Nullish
        then show ?thesis using False r by (simp add: callback.simps)
      next
        case (Folder schema settings)
        define o1 where
          "o1 = getDataFromSchema normalizeInput join schema (join rootPath key) mp fs"
        show ?thesis
        proof (cases "returned o1")
          case (Inl err)
          then show ?thesis
            using False Folder r by (simp add: callback.simps o1_def [symmetric] Let_def)
        next
          case (Inr newData)
          have "clean newData"
            using 4 [OF False refl Folder] c Inr by (simp add: P_def o1_def)
          moreover have "d' = data ++ newData"
            using False Folder r Inr by (simp add: callback.simps o1_def [symmetric] Let_def)
          ultimately show ?thesis
            using d by (auto simp: clean_def map_add_def split: option.splits)
        qed
      next
        case (Input r0)
        show ?thesis
        proof (cases "mp key")
          case (Some first)
          then show ?thesis
            using False Input r d by (simp add: callback.simps Let_def)
        next
          case None
          show ?thesis
          proof (cases "normalizeInput r0 key (join rootPath key) data")
            case unknown: None
            then show ?thesis
              using False Input None r d by (simp add: callback.simps Let_def split: if_splits)
          next
            case (Some n)
            show ?thesis
            proof (cases "inherited key")
              case True
              then show ?thesis
                using False Input None r d by (simp add: callback.simps Let_def)
            next
              case fresh: False
              have "d' = data(join rootPath key \<mapsto> data_entry n)"
                using False fresh Input None Some r by (simp add: callback.simps Let_def)
              moreover have "\<forall>x \<in> set side_effect_keys. data_entry n x = None"
                using c Some by (simp add: contract_def data_entry_side_effects)
              ultimately show ?thesis
                using d by (auto simp: clean_def)
            qed
          qed
        qed
      qed
    qed
  qed
qed

lemma getDataFromSchema_clean:
  assumes "\<forall>r k p d n. N r k p d = Some n \<longrightarrow> (\<forall>x \<in> set side_effect_keys. n_input n x = None)"
    and "returned (getDataFromSchema N J schema root mp fs) = Inr d'"
    and "d' p = Some e" and "x \<in> set side_effect_keys"
  shows "e x = None"
  using resolver_clean_aux(1) [of N J schema root mp fs] assms by blast


lemma forEach_processed_entry:
  assumes pre: "returned (getDataFromSchema N J pre root mp fs) = Inr d1"
    and step: "returned (callback N J k raw root d1 (mappedPaths (getDataFromSchema N J pre root mp fs))
        (folders (getDataFromSchema N J pre root mp fs))) = Inr d2"
  shows "let o1 = getDataFromSchema N J pre root mp fs;
             oc = callback N J k raw root d1 (mappedPaths o1) (folders o1);
             o2 = forEach N J post root d2 (mappedPaths oc) (folders oc);
             a = getDataFromSchema N J (pre @ (k, raw) # post) root mp fs
         in returned a = returned o2 \<and> mappedPaths a = mappedPaths o2 \<and> folders a = folders o2 \<and>
            warned a = warned o1 @ warned oc @ warned o2"
proof -
  define o1 where "o1 = forEach N J pre root Map.empty mp fs"
  have pre': "returned o1 = Inr d1"
    using pre by (simp add: getDataFromSchema.simps o1_def)
  show ?thesis
    using step
    by (simp add: forEach_continues [OF pre' [unfolded o1_def]] getDataFromSchema.simps
        o1_def [symmetric] Let_def)
qed

text \<open>
  C6. Let \<^verbatim>\<open>normalizeInput\<close> return inputs without the four side-effect settings
  (it returns \<^verbatim>\<open>{ value, settings }\<close> objects), and let the walk reach an entry that
  is not a folder, whose key is not empty and not yet mapped, and which
  \<^verbatim>\<open>normalizeInput\<close> recognises (not mapped as \<^verbatim>\<open>in\<close> tests it). Then the entry
  stored at the full path has none of
  \<^verbatim>\<open>onChange\<close>, \<^verbatim>\<open>transient\<close>, \<^verbatim>\<open>onEditStart\<close>, \<^verbatim>\<open>onEditEnd\<close>, while
  every other option is merged into it (unless the input overrides it); the four are kept,
  with the path, under the short key in the mapping, also at the end of the walk; and no
  entry of the data returned by the walk has any of the four.
\<close>

theorem side_effect_settings_are_mapped:
  assumes "\<forall>r k p d n. N r k p d = Some n \<longrightarrow> (\<forall>x \<in> set side_effect_keys. n_input n x = None)"
    and "returned (getDataFromSchema N J pre root mp fs) = Inr dpre"
    and "k \<noteq> []"
    and "mappedPaths (getDataFromSchema N J pre root mp fs) k = None"
    and "\<not> inherited k"
    and "N r k (J root k) dpre = Some n"
  shows "let o1 = getDataFromSchema N J pre root mp fs;
             a = getDataFromSchema N J (pre @ (k, Input r) # post) root mp fs
         in callback N J k (Input r) root dpre (mappedPaths o1) (folders o1) =
              \<lparr>returned = Inr (dpre(J root k \<mapsto> data_entry n)),
               mappedPaths = (mappedPaths o1)(k \<mapsto> mapped_entry (J root k) n),
               folders = folders o1, warned = []\<rparr> \<and>
            (\<forall>x \<in> set side_effect_keys. data_entry n x = None) \<and>
            (\<forall>x. x \<notin> set side_effect_keys \<and> x \<noteq> ''fromPanel'' \<and> n_input n x = None \<longrightarrow>
               data_entry n x =
                 (case n_options n x of Some v \<Rightarrow> Some v
                  | None \<Rightarrow> if x = ''type'' then Some (n_type n) else None)) \<and>
            mappedPaths a k =
              Some \<lparr>path = J root k,
                    onChange = option_or_undefined (n_options n) ''onChange'',
                    transient = option_or_undefined (n_options n) ''transient'',
                    onEditStart = option_or_undefined (n_options n) ''onEditStart'',
                    onEditEnd = option_or_undefined (n_options n) ''onEditEnd''\<rparr> \<and>
            (\<forall>d. returned a = Inr d \<longrightarrow>
               J root k \<in> dom d \<and>
               (\<forall>p e. d p = Some e \<longrightarrow> (\<forall>x \<in> set side_effect_keys. e x = None)))"
proof -
  define o1 where "o1 = getDataFromSchema N J pre root mp fs"
  define oc where "oc = callback N J k (Input r) root dpre (mappedPaths o1) (folders o1)"
  define o2 where
    "o2 = forEach N J post root (dpre(J root k \<mapsto> data_entry n)) (mappedPaths oc) (folders oc)"
  define a where "a = getDataFromSchema N J (pre @ (k, Input r) # post) root mp fs"
  have step: "oc = \<lparr>returned = Inr (dpre(J root k \<mapsto> data_entry n)),
      mappedPaths = (mappedPaths o1)(k \<mapsto> mapped_entry (J root k) n),
      folders = folders o1, warned = []\<rparr>"
    using assms(3-6) by (simp add: oc_def o1_def callback.simps Let_def)
  have clean_entry: "\<forall>x \<in> set side_effect_keys. data_entry n x = None"
    using assms(1,6) by (simp add: data_entry_side_effects)
  have merged: "\<forall>x. x \<notin> set side_effect_keys \<and> x \<noteq> ''fromPanel'' \<and> n_input n x = None \<longrightarrow>
      data_entry n x =
        (case n_options n x of Some v \<Rightarrow> Some v
         | None \<Rightarrow> if x = ''type'' then Some (n_type n) else None)"
    by (simp add: data_entry_options)
  have stepr: "returned oc = Inr (dpre(J root k \<mapsto> data_entry n))"
    by (simp add: step)
  have out: "returned a = returned o2 \<and> mappedPaths a = mappedPaths o2"
    using forEach_processed_entry [OF assms(2) stepr [unfolded oc_def o1_def], of post]
    unfolding Let_def o1_def o2_def a_def oc_def by simp
  have "mappedPaths oc \<subseteq>\<^sub>m mappedPaths o2"
    unfolding o2_def by (rule forEach_monotone)
  moreover have "mappedPaths oc k = Some (mapped_entry (J root k) n)"
    by (simp add: step)
  ultimately have "mappedPaths o2 k = Some (mapped_entry (J root k) n)"
    by (auto simp: map_le_def dom_def)
  with out have mapped: "mappedPaths a k =
      Some \<lparr>path = J root k,
            onChange = option_or_undefined (n_options n) ''onChange'',
            transient = option_or_undefined (n_options n) ''transient'',
            onEditStart = option_or_undefined (n_options n) ''onEditStart'',
            onEditEnd = option_or_undefined (n_options n) ''onEditEnd''\<rparr>"
    by (simp add: mapped_entry_def)
  have final: "J root k \<in> dom d \<and>
      (\<forall>p e. d p = Some e \<longrightarrow> (\<forall>x \<in> set side_effect_keys. e x = None))"
    if "returned a = Inr d" for d
  proof
    from that out have "returned o2 = Inr d" by simp
    then have "dom (dpre(J root k \<mapsto> data_entry n)) \<subseteq> dom d"
      unfolding o2_def by (rule forEach_monotone)
    then show "J root k \<in> dom d" by auto
    show "\<forall>p e. d p = Some e \<longrightarrow> (\<forall>x \<in> set side_effect_keys. e x = None)"
      using getDataFromSchema_clean [OF assms(1) that [unfolded a_def]] by blast
  qed
  show ?thesis
    unfolding Let_def o1_def [symmetric] a_def [symmetric]
    using step [unfolded oc_def] clean_entry merged mapped final by blast
qed

text \<open>
  C7. For a folder entry (with a non-empty key) the callback walks the folder's schema
  under the path extended by the key and merges the data found into its own. The
  folder's settings are recorded under that path only if the folders hold nothing there
  after the walk of its schema (and are recorded then, unless the path is a name that
  objects inherit); settings that were recorded before the entry, under any
  path, are still there afterwards, and so they are after any later walk over the same
  folders object.
\<close>

theorem folder_settings_first_wins:
  assumes "k \<noteq> []"
  shows "let newPath = J root k;
             sub = getDataFromSchema N J schema newPath mp fs;
             out = callback N J k (Folder schema settings) root d mp fs
         in (case returned sub of
               Inl err \<Rightarrow> out = sub
             | Inr newData \<Rightarrow>
                 returned out = Inr (d ++ newData) \<and>
                 mappedPaths out = mappedPaths sub \<and>
                 warned out = warned sub \<and>
                 folders out =
                   (case folders sub newPath of
                      Some recorded \<Rightarrow> folders sub
                    | None \<Rightarrow> if inherited newPath then folders sub
                              else (folders sub)(newPath \<mapsto> settings))) \<and>
            (\<forall>p recorded. fs p = Some recorded \<longrightarrow> folders out p = Some recorded) \<and>
            (\<forall>d'. returned out = Inr d' \<and> folders sub newPath = None \<and> \<not> inherited newPath \<longrightarrow>
               folders out newPath = Some settings) \<and>
            (\<forall>p recorded N' J' schema' root' mp'.
               folders out p = Some recorded \<longrightarrow>
               folders (getDataFromSchema N' J' schema' root' mp' (folders out)) p = Some recorded)"
proof -
  define sub where "sub = getDataFromSchema N J schema (J root k) mp fs"
  define out where "out = callback N J k (Folder schema settings) root d mp fs"
  have unfold: "out =
      (case returned sub of
         Inl err \<Rightarrow> sub
       | Inr newData \<Rightarrow>
           sub\<lparr>returned := Inr (d ++ newData),
               folders := (if J root k \<in> dom (folders sub) \<or> inherited (J root k)
                           then folders sub
                           else (folders sub)(J root k \<mapsto> settings))\<rparr>)"
    unfolding out_def sub_def using assms by (simp add: callback.simps Let_def)
  have first: "case returned sub of
       Inl err \<Rightarrow> out = sub
     | Inr newData \<Rightarrow>
         returned out = Inr (d ++ newData) \<and>
         mappedPaths out = mappedPaths sub \<and>
         warned out = warned sub \<and>
         folders out =
           (case folders sub (J root k) of
              Some recorded \<Rightarrow> folders sub
            | None \<Rightarrow> if inherited (J root k) then folders sub
                      else (folders sub)(J root k \<mapsto> settings))"
    by (auto simp: unfold dom_def split: sum.splits option.splits)
  have kept: "folders out p = Some recorded" if "fs p = Some recorded" for p recorded
    using callback_monotone(2) [of fs N J k "Folder schema settings" root d mp] that
    by (auto simp: map_le_def out_def dom_def)
  have recorded: "folders out (J root k) = Some settings"
    if "returned out = Inr d'" "folders sub (J root k) = None" "\<not> inherited (J root k)" for d'
    using that by (auto simp: unfold dom_def split: sum.splits)
  have later: "folders (getDataFromSchema N' J' schema' root' mp' (folders out)) p = Some recorded"
    if "folders out p = Some recorded" for p recorded N' J' schema' root' mp'
    using getDataFromSchema_monotone(2) [of "folders out" N' J' schema' root' mp'] that
    by (auto simp: map_le_def dom_def)
  show ?thesis
    unfolding Let_def sub_def [symmetric] out_def [symmetric]
    using first kept recorded later by blast
qed


lemma example_normalize_contract:
  "\<forall>r k p d n. example_normalize r k p d = Some n \<longrightarrow>
     (\<forall>x \<in> set side_effect_keys. n_input n x = None)"
proof (intro allI impI)
  fix r k p d n
  assume "example_normalize r k p d = Some n"
  then obtain v opts where "n = number_input k v opts"
    by (cases r) (auto split: option.splits jsval.splits)
  then show "\<forall>x \<in> set side_effect_keys. n_input n x = None"
    by (simp add: number_input_def side_effect_keys_def)
qed

lemmas walk_simps = getDataFromSchema.simps callback.simps Let_def join_paths_def
  inherited_def object_prototype_keys_def

theorem empty_key_is_skipped_witness:
  "returned (getDataFromSchema example_normalize join_paths
      [(''a'', Input (JNum 1)), ([], Input (JNum 2)), (''b'', Input (JNum 3))] [] Map.empty Map.empty) =
     Inr [''a'' \<mapsto> data_entry (number_input ''a'' 1 Map.empty),
          ''b'' \<mapsto> data_entry (number_input ''b'' 3 Map.empty)] \<and>
   warned (getDataFromSchema example_normalize join_paths
      [(''a'', Input (JNum 1)), ([], Input (JNum 2)), (''b'', Input (JNum 3))] [] Map.empty Map.empty) =
     [EMPTY_KEY] \<and>
   returned (getDataFromSchema example_normalize join_paths
      [(''a'', Input (JNum 1)), ([], Input (JNum 2)), (''b'', Input (JNum 3))] [] Map.empty Map.empty) =
   returned (getDataFromSchema example_normalize join_paths
      [(''a'', Input (JNum 1)), (''b'', Input (JNum 3))] [] Map.empty Map.empty)"
  using empty_key_is_skipped [of example_normalize join_paths "[(''a'', Input (JNum 1))]" "[]"
      Map.empty Map.empty "Input (JNum 2)" "[(''b'', Input (JNum 3))]"]
  by (simp add: walk_simps)

theorem unknown_input_is_skipped_witness:
  "returned (getDataFromSchema example_normalize join_paths
      [(''a'', Input (JNum 1)), (''bad'', Input (JBool True)), (''b'', Input (JNum 3))]
      [] Map.empty Map.empty) =
     Inr [''a'' \<mapsto> data_entry (number_input ''a'' 1 Map.empty),
          ''b'' \<mapsto> data_entry (number_input ''b'' 3 Map.empty)] \<and>
   mappedPaths (getDataFromSchema example_normalize join_paths
      [(''a'', Input (JNum 1)), (''bad'', Input (JBool True)), (''b'', Input (JNum 3))]
      [] Map.empty Map.empty) ''bad'' = None \<and>
   warned (getDataFromSchema example_normalize join_paths
      [(''a'', Input (JNum 1)), (''bad'', Input (JBool True)), (''b'', Input (JNum 3))]
      [] Map.empty Map.empty) = [UNKNOWN_INPUT ''bad'' (JBool True)]"
proof -
  have reached: "returned (getDataFromSchema example_normalize join_paths
        [(''a'', Input (JNum 1))] [] Map.empty Map.empty) =
      Inr [''a'' \<mapsto> data_entry (number_input ''a'' 1 Map.empty)]"
    by (simp add: walk_simps)
  have key: "''bad'' \<noteq> []" by simp
  have unmapped: "mappedPaths (getDataFromSchema example_normalize join_paths
        [(''a'', Input (JNum 1))] [] Map.empty Map.empty) ''bad'' = None"
    by (simp add: walk_simps)
  have own: "\<not> inherited ''bad''"
    by (simp add: inherited_def object_prototype_keys_def)
  have unknown: "example_normalize (JBool True) ''bad'' (join_paths [] ''bad'')
      [''a'' \<mapsto> data_entry (number_input ''a'' 1 Map.empty)] = None"
    by simp
  show ?thesis
    using unknown_input_is_skipped [where N = example_normalize and J = join_paths
          and pre = "[(''a'', Input (JNum 1))]" and root = "[]" and mp = Map.empty
          and fs = Map.empty and dpre = "[''a'' \<mapsto> data_entry (number_input ''a'' 1 Map.empty)]"
          and k = "''bad''" and r = "JBool True" and post = "[(''b'', Input (JNum 3))]",
        OF reached key unmapped own unknown]
    by (simp add: walk_simps)
qed

theorem duplicate_key_is_dropped_witness:
  "returned (getDataFromSchema example_normalize join_paths
      [(''x'', Input (JNum 2))] ''folder2'' [''x'' \<mapsto> plain_mapping ''folder1.x''] Map.empty) =
     Inr Map.empty \<and>
   mappedPaths (getDataFromSchema example_normalize join_paths
      [(''x'', Input (JNum 2))] ''folder2'' [''x'' \<mapsto> plain_mapping ''folder1.x''] Map.empty) ''x'' =
     Some (plain_mapping ''folder1.x'') \<and>
   warned (getDataFromSchema example_normalize join_paths
      [(''x'', Input (JNum 2))] ''folder2'' [''x'' \<mapsto> plain_mapping ''folder1.x''] Map.empty) =
     [DUPLICATE_KEYS ''x'' ''folder2.x'' (JStr ''folder1.x'')]"
proof -
  have reached: "returned (getDataFromSchema example_normalize join_paths
        [] ''folder2'' [''x'' \<mapsto> plain_mapping ''folder1.x''] Map.empty) = Inr Map.empty"
    by (simp add: walk_simps)
  have key: "''x'' \<noteq> []" by simp
  have mapped: "mappedPaths (getDataFromSchema example_normalize join_paths
        [] ''folder2'' [''x'' \<mapsto> plain_mapping ''folder1.x''] Map.empty) ''x'' =
      Some (plain_mapping ''folder1.x'')"
    by (simp add: walk_simps)
  show ?thesis
    using duplicate_key_is_dropped [where N = example_normalize and J = join_paths
          and pre = "[]" and root = "''folder2''" and mp = "[''x'' \<mapsto> plain_mapping ''folder1.x'']"
          and fs = Map.empty and dpre = Map.empty and k = "''x''"
          and first = "plain_mapping ''folder1.x''" and post = "[]" and r = "JNum 2",
        OF reached key mapped]
    by (simp add: walk_simps plain_mapping_def)
qed

lemma duplicate_key_example:
  "returned (getDataFromSchema example_normalize join_paths
      [(''folder1'', Folder [(''x'', Input (JNum 1))] JUndefined),
       (''folder2'', Folder [(''x'', Input (JNum 2))] JUndefined)] [] Map.empty Map.empty) =
     Inr [''folder1.x'' \<mapsto> data_entry (number_input ''x'' 1 Map.empty)] \<and>
   mappedPaths (getDataFromSchema example_normalize join_paths
      [(''folder1'', Folder [(''x'', Input (JNum 1))] JUndefined),
       (''folder2'', Folder [(''x'', Input (JNum 2))] JUndefined)] [] Map.empty Map.empty) ''x'' =
     Some (plain_mapping ''folder1.x'') \<and>
   warned (getDataFromSchema example_normalize join_paths
      [(''folder1'', Folder [(''x'', Input (JNum 1))] JUndefined),
       (''folder2'', Folder [(''x'', Input (JNum 2))] JUndefined)] [] Map.empty Map.empty) =
     [DUPLICATE_KEYS ''x'' ''folder2.x'' (JStr ''folder1.x'')]"
  by (simp add: walk_simps plain_mapping_def mapped_entry_def option_or_undefined_def number_input_def)


theorem side_effect_settings_are_mapped_witness:
  "mappedPaths (getDataFromSchema example_normalize join_paths
      [(''speed'', Input (JObj speed_input))] ''settings'' Map.empty Map.empty) ''speed'' =
     Some \<lparr>path = ''settings.speed'', onChange = JFun 0, transient = JBool False,
           onEditStart = JUndefined, onEditEnd = JUndefined\<rparr> \<and>
   data_entry (number_input ''speed'' 1 (speed_input(''value'' := None))) ''onChange'' = None \<and>
   data_entry (number_input ''speed'' 1 (speed_input(''value'' := None))) ''transient'' = None \<and>
   data_entry (number_input ''speed'' 1 (speed_input(''value'' := None))) ''label'' =
     Some (JStr ''Speed'') \<and>
   returned (getDataFromSchema example_normalize join_paths
      [(''speed'', Input (JObj speed_input))] ''settings'' Map.empty Map.empty) =
     Inr [''settings.speed'' \<mapsto>
            data_entry (number_input ''speed'' 1 (speed_input(''value'' := None)))]"
proof -
  have reached: "returned (getDataFromSchema example_normalize join_paths
        [] ''settings'' Map.empty Map.empty) = Inr Map.empty"
    by (simp add: walk_simps)
  have key: "''speed'' \<noteq> []" by simp
  have unmapped: "mappedPaths (getDataFromSchema example_normalize join_paths
        [] ''settings'' Map.empty Map.empty) ''speed'' = None"
    by (simp add: walk_simps)
  have own: "\<not> inherited ''speed''"
    by (simp add: inherited_def object_prototype_keys_def)
  have recognised: "example_normalize (JObj speed_input) ''speed''
        (join_paths ''settings'' ''speed'') Map.empty =
      Some (number_input ''speed'' 1 (speed_input(''value'' := None)))"
    by (simp add: speed_input_def)
  show ?thesis
    using side_effect_settings_are_mapped [where N = example_normalize and J = join_paths
          and pre = "[]" and root = "''settings''" and mp = Map.empty and fs = Map.empty
          and dpre = Map.empty and k = "''speed''" and r = "JObj speed_input"
          and n = "number_input ''speed'' 1 (speed_input(''value'' := None))" and post = "[]",
        OF example_normalize_contract reached key unmapped own recognised]
    by (simp add: walk_simps speed_input_def side_effect_keys_def option_or_undefined_def
        number_input_def)
qed

theorem folder_settings_first_wins_witness:
  "folders (callback example_normalize join_paths ''f''
      (Folder [(''a'', Input (JNum 1))] (JObj [''collapsed'' \<mapsto> JBool True])) [] Map.empty Map.empty
      [''f'' \<mapsto> JObj [''collapsed'' \<mapsto> JBool False]]) ''f'' =
     Some (JObj [''collapsed'' \<mapsto> JBool False]) \<and>
   folders (callback example_normalize join_paths ''f''
      (Folder [(''a'', Input (JNum 1))] (JObj [''collapsed'' \<mapsto> JBool True])) [] Map.empty Map.empty
      Map.empty) ''f'' =
     Some (JObj [''collapsed'' \<mapsto> JBool True]) \<and>
   returned (callback example_normalize join_paths ''f''
      (Folder [(''a'', Input (JNum 1))] (JObj [''collapsed'' \<mapsto> JBool True])) [] Map.empty Map.empty
      Map.empty) = Inr [''f.a'' \<mapsto> data_entry (number_input ''a'' 1 Map.empty)]"
proof -
  have key: "''f'' \<noteq> []" by simp
  show ?thesis
    using folder_settings_first_wins [where k = "''f''" and J = join_paths and root = "[]"
          and N = example_normalize and schema = "[(''a'', Input (JNum 1))]"
          and mp = Map.empty and fs = "[''f'' \<mapsto> JObj [''collapsed'' \<mapsto> JBool False]]"
          and settings = "JObj [''collapsed'' \<mapsto> JBool True]" and d = Map.empty, OF key]
      folder_settings_first_wins [where k = "''f''" and J = join_paths and root = "[]"
          and N = example_normalize and schema = "[(''a'', Input (JNum 1))]"
          and mp = Map.empty and fs = Map.empty
          and settings = "JObj [''collapsed'' \<mapsto> JBool True]" and d = Map.empty, OF key]
    by (simp add: walk_simps)
qed


section \<open>Properties of the ownership coordinator\<close>

lemma refCount_register_input:
  "refCount (register_input st (p, ty, v)) q = refCount st q + (if q = p then 1 else 0)"
  by (auto simp: refCount_def register_input_def update_conv' split: option.splits)

lemma positive_register_input:
  "positive st \<Longrightarrow> positive (register_input st i)"
  by (cases i) (auto simp: positive_def register_input_def update_conv' split: option.splits if_splits)

lemma entries_register_folders:
  "entries (foldl register_folder st fs) = entries st"
  by (induction fs arbitrary: st) (auto simp: register_folder_def split: option.splits)

lemma refCount_register_inputs:
  "distinct (map fst is) \<Longrightarrow>
   refCount (foldl register_input st is) q =
     refCount st q + (if q \<in> fst ` set is then 1 else 0)"
proof (induction "is" arbitrary: st)
  case Nil
  then show ?case by simp
next
  case (Cons i "is")
  obtain p ty v where i: "i = (p, ty, v)" by (cases i)
  show ?case
    using Cons by (auto simp: i refCount_register_input)
qed

lemma positive_register_inputs:
  "positive st \<Longrightarrow> positive (foldl register_input st is)"
  by (induction "is" arbitrary: st) (auto simp: positive_register_input)

lemma refCount_register:
  "refCount (register r st) q = refCount st q + (if q \<in> set (reg_paths r) then 1 else 0)"
  if "distinct (reg_paths r)"
proof -
  have "refCount (foldl register_folder st (reg_folders r)) q = refCount st q"
    by (simp add: refCount_def entries_register_folders)
  then show ?thesis
    using that by (simp add: register_def reg_paths_def refCount_register_inputs)
qed

lemma positive_register: "positive st \<Longrightarrow> positive (register r st)"
  unfolding register_def
  by (rule positive_register_inputs) (simp add: positive_def entries_register_folders)

lemma refCount_release_path:
  "positive st \<Longrightarrow>
   refCount (release_path st p) q = refCount st q - (if q = p then 1 else 0)"
  by (auto simp: refCount_def release_path_def prune_folders_def update_conv' delete_conv'
      positive_def split: option.splits)

lemma positive_release_path: "positive st \<Longrightarrow> positive (release_path st p)"
  by (auto simp: positive_def release_path_def prune_folders_def update_conv' delete_conv'
      split: option.splits if_splits)

lemma positive_release_paths: "positive st \<Longrightarrow> positive (foldl release_path st ps)"
  by (induction ps arbitrary: st) (auto simp: positive_release_path)

lemma refCount_release_paths:
  "distinct ps \<Longrightarrow> positive st \<Longrightarrow>
   refCount (foldl release_path st ps) q = refCount st q - (if q \<in> set ps then 1 else 0)"
proof (induction ps arbitrary: st)
  case Nil
  then show ?case by simp
next
  case (Cons p ps)
  then show ?case
    by (auto simp: refCount_release_path positive_release_path)
qed

lemma refCount_teardown:
  "distinct (reg_paths r) \<Longrightarrow> positive st \<Longrightarrow>
   refCount (teardown r st) q = refCount st q - (if q \<in> set (reg_paths r) then 1 else 0)"
  by (simp add: teardown_def refCount_release_paths)

lemma positive_teardown: "positive st \<Longrightarrow> positive (teardown r st)"
  by (simp add: teardown_def positive_release_paths)

lemma exists_iff_counted: "positive st \<Longrightarrow> exists_in st p \<longleftrightarrow> 0 < refCount st p"
  by (auto simp: exists_in_def refCount_def positive_def split: option.splits)

lemma touching_remove1:
  "r \<in> set rs \<Longrightarrow>
   touching p rs = touching p (remove1 r rs) + (if p \<in> set (reg_paths r) then 1 else 0)"
  by (induction rs) (auto simp: touching_def)

lemma run_counts:
  assumes "valid_events active evs" and "positive st"
    and "\<forall>r \<in> set active. distinct (reg_paths r)"
    and "\<forall>q. refCount st q = touching q active"
  shows "positive (run evs st) \<and>
         (\<forall>q. refCount (run evs st) q + teardowns_touching q evs =
               touching q active + registrations_touching q evs)"
  using assms
proof (induction evs arbitrary: st active)
  case Nil
  then show ?case by (simp add: run_def teardowns_touching_def registrations_touching_def)
next
  case (Cons ev evs)
  show ?case
  proof (cases ev)
    case (Register r)
    with Cons.prems have d: "distinct (reg_paths r)" and v: "valid_events (r # active) evs"
      by simp_all
    have "positive (run evs (register r st)) \<and>
        (\<forall>q. refCount (run evs (register r st)) q + teardowns_touching q evs =
              touching q (r # active) + registrations_touching q evs)"
    proof (rule Cons.IH [OF v])
      show "positive (register r st)" using Cons.prems(2) by (rule positive_register)
      show "\<forall>r \<in> set (r # active). distinct (reg_paths r)" using d Cons.prems(3) by simp
      show "\<forall>q. refCount (register r st) q = touching q (r # active)"
        using Cons.prems(4) d by (simp add: refCount_register touching_def)
    qed
    then show ?thesis
      by (simp add: Register run_def teardowns_touching_def registrations_touching_def
          touching_def)
  next
    case (Teardown r)
    with Cons.prems have m: "r \<in> set active" and v: "valid_events (remove1 r active) evs"
      by simp_all
    from m Cons.prems(3) have d: "distinct (reg_paths r)" by simp
    have "positive (run evs (teardown r st)) \<and>
        (\<forall>q. refCount (run evs (teardown r st)) q + teardowns_touching q evs =
              touching q (remove1 r active) + registrations_touching q evs)"
    proof (rule Cons.IH [OF v])
      show "positive (teardown r st)" using Cons.prems(2) by (rule positive_teardown)
      show "\<forall>r \<in> set (remove1 r active). distinct (reg_paths r)"
        using Cons.prems(3) by (auto dest: notin_set_remove1)
      show "\<forall>q. refCount (teardown r st) q = touching q (remove1 r active)"
        using Cons.prems(2,4) d touching_remove1 [OF m]
        by (simp add: refCount_teardown)
    qed
    then show ?thesis
      using touching_remove1 [OF m]
      by (simp add: Teardown run_def teardowns_touching_def registrations_touching_def)
  qed
qed


lemma has_children_iff:
  "has_children f es \<longleftrightarrow> (\<exists>q. map_of es q \<noteq> None \<and> is_descendant f q)"
  by (force simp: has_children_def list_ex_iff map_of_eq_None_iff)

lemma release_path_shrinks:
  "exists_in (release_path st p) q \<Longrightarrow> exists_in st q"
  by (auto simp: exists_in_def release_path_def prune_folders_def update_conv' delete_conv'
      split: option.splits if_splits)

lemma release_path_removes_own:
  "exists_in st q \<Longrightarrow> \<not> exists_in (release_path st p) q \<Longrightarrow> q = p"
  by (auto simp: exists_in_def release_path_def prune_folders_def update_conv' delete_conv'
      split: option.splits if_splits)

lemma release_path_folders:
  "folder_entries st f = None \<Longrightarrow> folder_entries (release_path st p) f = None"
  by (auto simp: release_path_def prune_folders_def split: option.splits)

lemma release_path_prunes:
  assumes "exists_in st p" and "\<not> exists_in (release_path st p) p" and "is_descendant f p"
    and "\<forall>q. exists_in (release_path st p) q \<longrightarrow> \<not> is_descendant f q"
  shows "folder_entries (release_path st p) f = None"
proof -
  obtain e where e: "map_of (entries st) p = Some e"
    using assms(1) by (auto simp: exists_in_def)
  show ?thesis
  proof (cases "ownerRefCount e - 1 = 0")
    case True
    then have st': "release_path st p = prune_folders p (st\<lparr>entries := AList.delete p (entries st)\<rparr>)"
      by (simp add: release_path_def e)
    have "\<not> has_children f (AList.delete p (entries st))"
      using assms(4) unfolding st'
      by (auto simp: has_children_iff exists_in_def prune_folders_def)
    then show ?thesis
      using assms(3) by (simp add: st' prune_folders_def)
  next
    case False
    then have "exists_in (release_path st p) p"
      by (simp add: release_path_def e exists_in_def update_conv')
    with assms(2) show ?thesis by simp
  qed
qed

lemma release_paths_shrink:
  "exists_in (foldl release_path st ps) q \<Longrightarrow> exists_in st q"
  by (induction ps arbitrary: st) (auto dest: release_path_shrinks)

lemma release_paths_remove_own:
  "exists_in st q \<Longrightarrow> \<not> exists_in (foldl release_path st ps) q \<Longrightarrow> q \<in> set ps"
proof (induction ps arbitrary: st)
  case Nil
  then show ?case by simp
next
  case (Cons p ps)
  show ?case
  proof (cases "exists_in (release_path st p) q")
    case True
    with Cons show ?thesis by auto
  next
    case False
    with Cons.prems(1) have "q = p" by (rule release_path_removes_own)
    then show ?thesis by simp
  qed
qed

lemma release_paths_folders:
  "folder_entries st f = None \<Longrightarrow> folder_entries (foldl release_path st ps) f = None"
  by (induction ps arbitrary: st) (auto simp: release_path_folders)

lemma release_paths_prune:
  assumes "is_descendant f p" and "exists_in st p"
    and "\<not> exists_in (foldl release_path st ps) p"
    and "\<forall>q. exists_in (foldl release_path st ps) q \<longrightarrow> \<not> is_descendant f q"
  shows "folder_entries (foldl release_path st ps) f = None"
  using assms
proof (induction ps arbitrary: st p)
  case Nil
  then show ?case by simp
next
  case (Cons p0 ps)
  define st1 where "st1 = release_path st p0"
  have fold: "foldl release_path st (p0 # ps) = foldl release_path st1 ps"
    by (simp add: st1_def)
  show ?case
  proof (cases "\<exists>q. exists_in st1 q \<and> is_descendant f q")
    case True
    then obtain q where q: "exists_in st1 q" "is_descendant f q" by blast
    with Cons.prems(4) have "\<not> exists_in (foldl release_path st1 ps) q"
      unfolding fold by blast
    from Cons.IH [OF q(2) q(1) this] Cons.prems(4) show ?thesis
      unfolding fold by blast
  next
    case False
    with Cons.prems(1) have gone: "\<not> exists_in st1 p" by blast
    with Cons.prems(2) have "p = p0"
      unfolding st1_def by (rule release_path_removes_own)
    with Cons.prems(1,2) gone False have "folder_entries st1 f = None"
      unfolding st1_def by (intro release_path_prunes) auto
    then show ?thesis
      unfolding fold by (rule release_paths_folders)
  qed
qed

text \<open>
  C2. After any sequence of registrations and teardowns from the empty store, in which
  every teardown is that of an active registration, the reference count of a path is the
  number of registrations touching it minus the number of teardowns touching it, and the
  path is in the store exactly if that number is positive. In the store so reached, a
  further registration raises the count of each path it touches by one and of no other
  path, a teardown lowers it by one; a path leaves the store in a teardown only if the
  teardown touches it and its count was one; and a folder that lost a child path in a
  teardown and has no child path left is no longer in the store.
\<close>

theorem reference_counts:
  assumes "valid_events [] evs" and "distinct (reg_paths r)"
  shows "let st = run evs empty_store in
     refCount st p = registrations_touching p evs - teardowns_touching p evs \<and>
     teardowns_touching p evs \<le> registrations_touching p evs \<and>
     (exists_in st p \<longleftrightarrow> 0 < registrations_touching p evs - teardowns_touching p evs) \<and>
     refCount (register r st) p = refCount st p + (if p \<in> set (reg_paths r) then 1 else 0) \<and>
     refCount (teardown r st) p = refCount st p - (if p \<in> set (reg_paths r) then 1 else 0) \<and>
     (exists_in st p \<and> \<not> exists_in (teardown r st) p \<longrightarrow>
        p \<in> set (reg_paths r) \<and> refCount st p = 1) \<and>
     (\<forall>f. (\<exists>q. is_descendant f q \<and> exists_in st q \<and> \<not> exists_in (teardown r st) q) \<and>
          (\<forall>q. exists_in (teardown r st) q \<longrightarrow> \<not> is_descendant f q) \<longrightarrow>
          folder_entries (teardown r st) f = None)"
proof -
  define st where "st = run evs empty_store"
  have start: "positive empty_store" "\<forall>q. refCount empty_store q = touching q []"
    by (simp_all add: positive_def empty_store_def refCount_def touching_def)
  have counts: "positive st \<and>
      (\<forall>q. refCount st q + teardowns_touching q evs = touching q [] + registrations_touching q evs)"
    unfolding st_def using assms(1) start(1) _ start(2) by (rule run_counts) simp
  then have pos: "positive st"
    and sum: "refCount st p + teardowns_touching p evs = registrations_touching p evs"
    by (simp_all add: touching_def)
  have c1: "refCount st p = registrations_touching p evs - teardowns_touching p evs"
    and c2: "teardowns_touching p evs \<le> registrations_touching p evs"
    using sum by arith+
  have c3: "exists_in st p \<longleftrightarrow> 0 < registrations_touching p evs - teardowns_touching p evs"
    using exists_iff_counted [OF pos, of p] c1 by simp
  have c4: "refCount (register r st) p = refCount st p + (if p \<in> set (reg_paths r) then 1 else 0)"
    using assms(2) by (rule refCount_register)
  have c5: "refCount (teardown r st) p = refCount st p - (if p \<in> set (reg_paths r) then 1 else 0)"
    using assms(2) pos by (rule refCount_teardown)
  have c6: "p \<in> set (reg_paths r) \<and> refCount st p = 1"
    if "exists_in st p" "\<not> exists_in (teardown r st) p"
  proof -
    have "0 < refCount st p" "refCount (teardown r st) p = 0"
      using that exists_iff_counted [OF pos, of p]
        exists_iff_counted [OF positive_teardown [OF pos], of r p] by simp_all
    with c5 show ?thesis by (auto split: if_splits)
  qed
  have c7: "folder_entries (teardown r st) f = None"
    if "\<exists>q. is_descendant f q \<and> exists_in st q \<and> \<not> exists_in (teardown r st) q"
      "\<forall>q. exists_in (teardown r st) q \<longrightarrow> \<not> is_descendant f q" for f
    using that unfolding teardown_def by (blast intro: release_paths_prune)
  show ?thesis
    unfolding Let_def st_def [symmetric]
    using c1 c2 c3 c4 c5 c6 c7 by blast
qed


lemmas store_run = run_def empty_store_def register_def register_input_def register_folder_def
  teardown_def release_path_def prune_folders_def has_children_def is_descendant_def
  reg_paths_def refCount_def exists_in_def registrations_touching_def teardowns_touching_def

theorem reference_counts_witness:
  "refCount (run [Register x_registration, Register x_registration, Teardown x_registration]
      empty_store) ''x'' = 1 \<and>
   exists_in (run [Register x_registration, Register x_registration, Teardown x_registration]
      empty_store) ''x'' \<and>
   folder_entries (run [Register folder_registration] empty_store) ''f'' = Some JUndefined \<and>
   \<not> exists_in (teardown folder_registration (run [Register folder_registration] empty_store))
      ''f.a'' \<and>
   \<not> exists_in (teardown folder_registration (run [Register folder_registration] empty_store))
      ''f.b'' \<and>
   folder_entries (teardown folder_registration (run [Register folder_registration] empty_store))
      ''f'' = None"
proof -
  have shared: "valid_events []
      [Register x_registration, Register x_registration, Teardown x_registration]"
    by (simp add: x_registration_def reg_paths_def)
  have folder: "valid_events [] [Register folder_registration]"
    by (simp add: folder_registration_def reg_paths_def)
  have once: "distinct (reg_paths x_registration)" "distinct (reg_paths folder_registration)"
    by (simp_all add: x_registration_def folder_registration_def reg_paths_def)
  show ?thesis
    using reference_counts [where evs = "[Register x_registration, Register x_registration,
            Teardown x_registration]" and r = x_registration and p = "''x''",
        OF shared once(1)]
      reference_counts [where evs = "[Register folder_registration]"
          and r = folder_registration and p = "''f.a''", OF folder once(2)]
    by (simp add: store_run x_registration_def folder_registration_def)
qed


end
